theory Spec2Isabelle
  imports Main "HOL-Library.Word" "HOL-Library.Signed_Division"
begin

section \<open>Data model\<close>

text \<open>
  The repository's only source file is the driver \<^verbatim>\<open>main.c\<close>. It includes
  \<^verbatim>\<open>compiler.h\<close>, which declares the token and expression types and the
  functions \<^verbatim>\<open>scan_init\<close>, \<^verbatim>\<open>scan\<close>, \<^verbatim>\<open>parse_expr\<close>,
  \<^verbatim>\<open>eval_expr\<close> and the \<^verbatim>\<open>token_type_*\<close> helpers; that header and the
  files implementing it are not among the sources. The driver is embedded from its code,
  for every choice of the functions it calls; the lexer, the parser and the evaluator are
  embedded from the specification, and every such definition says so.
\<close>

type_synonym int64_t = "64 word"

text \<open>A C \<^verbatim>\<open>int\<close>: 32 bits, two's complement.\<close>

type_synonym c_int = "32 word"

text \<open>
  Modelled from the spec: the token type enumeration of the missing header
  \<^verbatim>\<open>compiler.h\<close>. Section 3 of the specification gives three disjoint families
  (keywords, operators, literals and identifiers) and the terminal \<^verbatim>\<open>TOKEN_EOF\<close>.
  The reserved words are those of the specification's conditional example
  (\<^verbatim>\<open>if (1) 5 else (1/0)\<close>); the operators are the arithmetic and comparison
  operators, the negations, \<^verbatim>\<open>=\<close> (the specification's longest-match example)
  and the two parentheses, which the lexer rule for symbol sequences makes operator tokens.
\<close>

datatype keyword = KEYWORD_IF | KEYWORD_ELSE

datatype operator =
    OP_PLUS | OP_MINUS | OP_TIMES | OP_DIVIDE | OP_MODULO
  | OP_EQUALS | OP_NOT_EQUALS | OP_LESS | OP_LESS_EQUAL
  | OP_ASSIGN | OP_NOT | OP_OPEN_PAREN | OP_CLOSE_PAREN

datatype token_type =
    TOKEN_KEYWORD keyword
  | TOKEN_OPERATOR operator
  | TOKEN_INTEGER
  | TOKEN_IDENT
  | TOKEN_EOF

text \<open>
  \<^verbatim>\<open>token_t\<close>: the driver reads \<^verbatim>\<open>token.type\<close>, \<^verbatim>\<open>token.v.i\<close> and
  \<^verbatim>\<open>token.v.name\<close>. The union \<^verbatim>\<open>v\<close> is flattened into two fields; the
  driver reads \<^verbatim>\<open>v.i\<close> only for \<^verbatim>\<open>TOKEN_INTEGER\<close> and \<^verbatim>\<open>v.name\<close> only for
  \<^verbatim>\<open>TOKEN_IDENT\<close>.
\<close>

record token_t =
  type :: token_type
  v_i :: int64_t
  v_name :: string

text \<open>
  \<^verbatim>\<open>expr_t\<close>: a node with a type discriminant and a union of payloads. The four
  variants are those \<^verbatim>\<open>print_expr\<close> dispatches on. C does not exclude a discriminant
  outside the enumeration, and \<^verbatim>\<open>print_expr\<close> has a \<^verbatim>\<open>default\<close> arm for it:
  \<^verbatim>\<open>EXPR_OTHER\<close> stands for a node with any other discriminant value.
\<close>

datatype expr_t =
    EXPR_INTEGER int64_t
  | EXPR_IF expr_t expr_t expr_t
  | EXPR_UNARY operator expr_t
  | EXPR_BINARY operator expr_t expr_t
  | EXPR_OTHER nat

text \<open>
  Modelled from the spec: the error taxonomy of section 7. A position is a byte offset
  into the source buffer and a line number. A failed \<^verbatim>\<open>assert(false)\<close> of the C
  code aborts the run; it is the value \<^verbatim>\<open>AssertionFailed\<close>.
\<close>

datatype production = PROD_CONDITIONAL | PROD_BINARY | PROD_UNARY | PROD_PRIMARY

datatype lex_error =
    UnexpectedChar nat nat char
  | MalformedNumber nat nat string

datatype parse_error = UnexpectedToken token_t production

datatype eval_error = DivisionByZero | Overflow | UnboundIdentifier string

datatype error =
    IoError string
  | LexError lex_error
  | ParseError parse_error
  | EvalError eval_error
  | AssertionFailed

text \<open>
  Modelled from the spec: the context of section 3 (the type \<^verbatim>\<open>context_t\<close> of the
  missing header): the source buffer, the scan position, the line tracking and the one
  token of lookahead.
\<close>

record context_t =
  source :: string
  pos :: nat
  line :: nat
  current :: token_t

section \<open>Output\<close>

text \<open>
  What a call printed to standard output, and how it ended: \<open>None\<close> when it returned,
  \<open>Some e\<close> when the run was aborted by \<open>e\<close>. Output printed before an abort stays
  printed.
\<close>

type_synonym printed = "string \<times> error option"

definition printf :: "string \<Rightarrow> printed" where
  "printf s = (s, None)"

definition abort :: "error \<Rightarrow> printed" where
  "abort e = ([], Some e)"

fun and_then :: "printed \<Rightarrow> printed \<Rightarrow> printed" where
  "and_then (out1, None) (out2, r) = (out1 @ out2, r)"
| "and_then (out1, Some e) _ = (out1, Some e)"

text \<open>\<^verbatim>\<open>PRId64\<close>: a signed 64-bit value in decimal.\<close>

fun decimal_nat :: "nat \<Rightarrow> string" where
  "decimal_nat n =
     (if n < 10 then [''0123456789'' ! n]
      else decimal_nat (n div 10) @ [''0123456789'' ! (n mod 10)])"

declare decimal_nat.simps [simp del]

definition decimal :: "int \<Rightarrow> string" where
  "decimal i = (if i < 0 then CHR ''-'' # decimal_nat (nat (- i)) else decimal_nat (nat i))"

definition PRId64 :: "int64_t \<Rightarrow> string" where
  "PRId64 w = decimal (sint w)"

text \<open>
  Modelled from the spec: the helpers \<^verbatim>\<open>token_type_is_keyword\<close>,
  \<^verbatim>\<open>token_type_is_operator\<close>, \<^verbatim>\<open>token_type_keyword_name\<close> and
  \<^verbatim>\<open>token_type_operator_name\<close> of the missing header. The two predicates tell
  the families of section 3 apart. The name of a keyword or of an operator is its
  spelling in the source text; the name functions take a token type, as in the C code,
  and the driver calls them on a type of their family only (outside of it the model
  gives the empty name).
\<close>

fun keyword_spelling :: "keyword \<Rightarrow> string" where
  "keyword_spelling KEYWORD_IF = ''if''"
| "keyword_spelling KEYWORD_ELSE = ''else''"

fun operator_spelling :: "operator \<Rightarrow> string" where
  "operator_spelling OP_PLUS = ''+''"
| "operator_spelling OP_MINUS = ''-''"
| "operator_spelling OP_TIMES = ''*''"
| "operator_spelling OP_DIVIDE = ''/''"
| "operator_spelling OP_MODULO = ''%''"
| "operator_spelling OP_EQUALS = ''==''"
| "operator_spelling OP_NOT_EQUALS = ''!=''"
| "operator_spelling OP_LESS = ''<''"
| "operator_spelling OP_LESS_EQUAL = ''<=''"
| "operator_spelling OP_ASSIGN = ''=''"
| "operator_spelling OP_NOT = ''!''"
| "operator_spelling OP_OPEN_PAREN = ''(''"
| "operator_spelling OP_CLOSE_PAREN = '')''"

fun token_type_is_keyword :: "token_type \<Rightarrow> bool" where
  "token_type_is_keyword (TOKEN_KEYWORD k) = True"
| "token_type_is_keyword t = False"

fun token_type_is_operator :: "token_type \<Rightarrow> bool" where
  "token_type_is_operator (TOKEN_OPERATOR op) = True"
| "token_type_is_operator t = False"

fun token_type_keyword_name :: "token_type \<Rightarrow> string" where
  "token_type_keyword_name (TOKEN_KEYWORD k) = keyword_spelling k"
| "token_type_keyword_name t = []"

fun token_type_operator_name :: "token_type \<Rightarrow> string" where
  "token_type_operator_name (TOKEN_OPERATOR op) = operator_spelling op"
| "token_type_operator_name t = []"

section \<open>The tree printer (main.c, print_expr)\<close>

text \<open>The loop \<^verbatim>\<open>for (int i = 0; i < indent; i++) printf("  ");\<close>\<close>

definition print_indent :: "c_int \<Rightarrow> string" where
  "print_indent indent = concat (replicate (nat (sint indent)) ''  '')"

text \<open>
  \<^verbatim>\<open>print_expr\<close>, lines 29 to 56: the indentation, then the switch on the node's
  type. The \<^verbatim>\<open>default\<close> arm is \<^verbatim>\<open>assert(false)\<close>. \<^verbatim>\<open>indent\<close> is a C
  \<^verbatim>\<open>int\<close>, compared as a signed number by the loop and incremented once per
  nesting level; at \<^verbatim>\<open>INT_MAX\<close> the increment wraps around to the most negative
  value (C leaves the overflow undefined; this is what the two's complement addition
  gives), and the loop then prints nothing. The operator of a node is a token type of
  the operator family.
\<close>

fun print_expr :: "expr_t \<Rightarrow> c_int \<Rightarrow> printed" where
  "print_expr (EXPR_INTEGER i) indent =
     and_then (printf (print_indent indent)) (printf (PRId64 i @ ''\<newline>''))"
| "print_expr (EXPR_IF condition consequent alternative) indent =
     and_then (printf (print_indent indent))
    (and_then (printf ''if\<newline>'')
    (and_then (print_expr condition (indent + 1))
    (and_then (print_expr consequent (indent + 1))
              (print_expr alternative (indent + 1)))))"
| "print_expr (EXPR_UNARY op operand) indent =
     and_then (printf (print_indent indent))
    (and_then (printf (token_type_operator_name (TOKEN_OPERATOR op) @ ''\<newline>''))
              (print_expr operand (indent + 1)))"
| "print_expr (EXPR_BINARY op left right) indent =
     and_then (printf (print_indent indent))
    (and_then (printf (token_type_operator_name (TOKEN_OPERATOR op) @ ''\<newline>''))
    (and_then (print_expr left (indent + 1))
              (print_expr right (indent + 1))))"
| "print_expr (EXPR_OTHER n) indent =
     and_then (printf (print_indent indent)) (abort AssertionFailed)"

text \<open>
  The recursive calls of \<^verbatim>\<open>print_expr\<close> (lines 40 to 42, 46, 50 and 51): the call
  on the left makes the call on the right.
\<close>

inductive print_expr_calls :: "expr_t \<times> c_int \<Rightarrow> expr_t \<times> c_int \<Rightarrow> bool" where
  "print_expr_calls (EXPR_IF condition consequent alternative, indent) (condition, indent + 1)"
| "print_expr_calls (EXPR_IF condition consequent alternative, indent) (consequent, indent + 1)"
| "print_expr_calls (EXPR_IF condition consequent alternative, indent) (alternative, indent + 1)"
| "print_expr_calls (EXPR_UNARY op operand, indent) (operand, indent + 1)"
| "print_expr_calls (EXPR_BINARY op left right, indent) (left, indent + 1)"
| "print_expr_calls (EXPR_BINARY op left right, indent) (right, indent + 1)"

text \<open>
  The dump as the specification words it (section 6): an indented pre-order dump, one
  node per line, each nesting level adding a fixed indent unit. \<open>dump d e\<close> lists
  the nodes of \<open>e\<close> in pre-order, each with its depth (the root at depth \<open>d\<close>,
  children one deeper, left to right) and its label: the decimal value of an integer,
  \<^verbatim>\<open>if\<close> for a conditional, the operator's name for a unary or binary node.
  \<open>dump_line\<close> renders one entry as a line: the indent unit (two spaces) once per
  level of depth, the label, a newline. A node of no known variant has no place in the
  specification's dump.
\<close>

fun expr_label :: "expr_t \<Rightarrow> string" where
  "expr_label (EXPR_INTEGER i) = decimal (sint i)"
| "expr_label (EXPR_IF condition consequent alternative) = ''if''"
| "expr_label (EXPR_UNARY op operand) = token_type_operator_name (TOKEN_OPERATOR op)"
| "expr_label (EXPR_BINARY op left right) = token_type_operator_name (TOKEN_OPERATOR op)"
| "expr_label (EXPR_OTHER n) = []"

fun expr_children :: "expr_t \<Rightarrow> expr_t list" where
  "expr_children (EXPR_INTEGER i) = []"
| "expr_children (EXPR_IF condition consequent alternative) = [condition, consequent, alternative]"
| "expr_children (EXPR_UNARY op operand) = [operand]"
| "expr_children (EXPR_BINARY op left right) = [left, right]"
| "expr_children (EXPR_OTHER n) = []"

fun dump :: "nat \<Rightarrow> expr_t \<Rightarrow> (nat \<times> string) list" where
  "dump d (EXPR_INTEGER i) = [(d, expr_label (EXPR_INTEGER i))]"
| "dump d (EXPR_IF condition consequent alternative) =
     (d, expr_label (EXPR_IF condition consequent alternative))
       # dump (d + 1) condition @ dump (d + 1) consequent @ dump (d + 1) alternative"
| "dump d (EXPR_UNARY op operand) =
     (d, expr_label (EXPR_UNARY op operand)) # dump (d + 1) operand"
| "dump d (EXPR_BINARY op left right) =
     (d, expr_label (EXPR_BINARY op left right)) # dump (d + 1) left @ dump (d + 1) right"
| "dump d (EXPR_OTHER n) = []"

definition dump_line :: "nat \<times> string \<Rightarrow> string" where
  "dump_line x = concat (replicate (fst x) ''  '') @ snd x @ ''\<newline>''"

text \<open>The number of nesting levels below the root of a tree.\<close>

fun expr_height :: "expr_t \<Rightarrow> nat" where
  "expr_height (EXPR_INTEGER i) = 0"
| "expr_height (EXPR_IF condition consequent alternative) =
     1 + max (expr_height condition) (max (expr_height consequent) (expr_height alternative))"
| "expr_height (EXPR_UNARY op operand) = 1 + expr_height operand"
| "expr_height (EXPR_BINARY op left right) = 1 + max (expr_height left) (expr_height right)"
| "expr_height (EXPR_OTHER n) = 0"

text \<open>A literal 0 under \<open>n\<close> negations, a tree of height \<open>n\<close>.\<close>

fun negations :: "nat \<Rightarrow> expr_t" where
  "negations 0 = EXPR_INTEGER 0"
| "negations (Suc n) = EXPR_UNARY OP_MINUS (negations n)"

fun expr_nodes :: "expr_t \<Rightarrow> nat" where
  "expr_nodes (EXPR_INTEGER i) = 1"
| "expr_nodes (EXPR_IF condition consequent alternative) =
     1 + expr_nodes condition + expr_nodes consequent + expr_nodes alternative"
| "expr_nodes (EXPR_UNARY op operand) = 1 + expr_nodes operand"
| "expr_nodes (EXPR_BINARY op left right) = 1 + expr_nodes left + expr_nodes right"
| "expr_nodes (EXPR_OTHER n) = 1"

section \<open>The token printer (main.c, scan_main, lines 15 to 25)\<close>

text \<open>
  The body of the loop of \<^verbatim>\<open>scan_main\<close> after the test for \<^verbatim>\<open>TOKEN_EOF\<close>:
  the chain of tests on \<^verbatim>\<open>token.type\<close>, in the source's order, with
  \<^verbatim>\<open>assert(false)\<close> as the final \<^verbatim>\<open>else\<close>.
\<close>

definition print_token :: "token_t \<Rightarrow> printed" where
  "print_token token =
     (if token_type_is_keyword (type token) then
        printf (''keyword '' @ token_type_keyword_name (type token) @ ''\<newline>'')
      else if token_type_is_operator (type token) then
        printf (''operator '' @ token_type_operator_name (type token) @ ''\<newline>'')
      else if type token = TOKEN_INTEGER then
        printf (''integer '' @ PRId64 (v_i token) @ ''\<newline>'')
      else if type token = TOKEN_IDENT then
        printf (''identifier '' @ v_name token @ ''\<newline>'')
      else abort AssertionFailed)"

section \<open>The lexer\<close>

text \<open>
  Modelled from the spec: the lexer of section 4.1, the function \<^verbatim>\<open>scan\<close> of the
  missing sources (the specification's \<^verbatim>\<open>next_token\<close>). It skips whitespace,
  returns \<^verbatim>\<open>TOKEN_EOF\<close> at the end of the buffer, and otherwise classifies the
  maximal run that starts at the cursor: letters and digits starting with a letter (a
  keyword when the run is a reserved word, an identifier otherwise), digits (a base-10
  integer, \<^verbatim>\<open>MalformedNumber\<close> beyond the signed 64-bit range), or the longest
  operator symbol; any other byte is \<^verbatim>\<open>UnexpectedChar\<close>. The specification names
  no comment syntax, so none is skipped.
\<close>

definition is_space :: "char \<Rightarrow> bool" where
  "is_space c = (c \<in> set [CHR '' '', CHR 0x09, CHR 0x0A, CHR 0x0D])"

definition is_digit :: "char \<Rightarrow> bool" where
  "is_digit c = (48 \<le> (of_char c :: nat) \<and> (of_char c :: nat) \<le> 57)"

definition is_letter :: "char \<Rightarrow> bool" where
  "is_letter c =
     ((65 \<le> (of_char c :: nat) \<and> (of_char c :: nat) \<le> 90) \<or>
      (97 \<le> (of_char c :: nat) \<and> (of_char c :: nat) \<le> 122))"

definition reserved_words :: "(string \<times> keyword) list" where
  "reserved_words = map (\<lambda>k. (keyword_spelling k, k)) [KEYWORD_IF, KEYWORD_ELSE]"

definition operator_symbols :: "(string \<times> operator) list" where
  "operator_symbols = map (\<lambda>op. (operator_spelling op, op))
     [OP_PLUS, OP_MINUS, OP_TIMES, OP_DIVIDE, OP_MODULO, OP_EQUALS, OP_NOT_EQUALS,
      OP_LESS, OP_LESS_EQUAL, OP_ASSIGN, OP_NOT, OP_OPEN_PAREN, OP_CLOSE_PAREN]"

text \<open>Longest match: of the symbols that start the text, the longest one.\<close>

definition match_operator :: "string \<Rightarrow> (string \<times> operator) option" where
  "match_operator s =
     (case filter (\<lambda>(spelling, op). take (length spelling) s = spelling) operator_symbols of
        [] \<Rightarrow> None
      | m # ms \<Rightarrow>
          Some (fold (\<lambda>x best. if length (fst best) < length (fst x) then x else best) ms m))"

definition number_of :: "string \<Rightarrow> nat" where
  "number_of digits = foldl (\<lambda>a c. 10 * a + (of_char c - 48)) 0 digits"

definition make_token :: "token_type \<Rightarrow> token_t" where
  "make_token t = \<lparr>type = t, v_i = 0, v_name = []\<rparr>"

definition scan :: "context_t \<Rightarrow> error + token_t \<times> context_t" where
  "scan ctx =
     (let rest = drop (pos ctx) (source ctx);
          blank = takeWhile is_space rest;
          lexeme = dropWhile is_space rest;
          start = pos ctx + length blank;
          ln = line ctx + length (filter (\<lambda>c. c = CHR 0x0A) blank)
      in case lexeme of
           [] \<Rightarrow> Inr (make_token TOKEN_EOF, ctx\<lparr>pos := start, line := ln\<rparr>)
         | c # cs \<Rightarrow>
             if is_letter c then
               let word = takeWhile (\<lambda>x. is_letter x \<or> is_digit x) lexeme;
                   ctx' = ctx\<lparr>pos := start + length word, line := ln\<rparr>
               in (case map_of reserved_words word of
                     Some k \<Rightarrow> Inr (make_token (TOKEN_KEYWORD k), ctx')
                   | None \<Rightarrow> Inr ((make_token TOKEN_IDENT)\<lparr>v_name := word\<rparr>, ctx'))
             else if is_digit c then
               let digits = takeWhile is_digit lexeme;
                   n = number_of digits
               in if n < 2 ^ 63
                  then Inr ((make_token TOKEN_INTEGER)\<lparr>v_i := of_nat n\<rparr>,
                            ctx\<lparr>pos := start + length digits, line := ln\<rparr>)
                  else Inl (LexError (MalformedNumber start ln digits))
             else
               (case match_operator lexeme of
                  Some (spelling, op) \<Rightarrow>
                    Inr (make_token (TOKEN_OPERATOR op),
                         ctx\<lparr>pos := start + length spelling, line := ln\<rparr>)
                | None \<Rightarrow> Inl (LexError (UnexpectedChar start ln c))))"

text \<open>The results of \<open>n\<close> successive calls of the lexer, up to the first error.\<close>

fun scan_repeatedly :: "nat \<Rightarrow> context_t \<Rightarrow> (error + token_t) list" where
  "scan_repeatedly 0 ctx = []"
| "scan_repeatedly (Suc n) ctx =
     (case scan ctx of
        Inl e \<Rightarrow> [Inl e]
      | Inr (token, ctx') \<Rightarrow> Inr token # scan_repeatedly n ctx')"

text \<open>Each call leaves the buffer and the lookahead alone and never moves the cursor
  back; a token other than \<^verbatim>\<open>TOKEN_EOF\<close> moves it forward, inside the buffer.\<close>

lemma take_drop_while_length: "length (takeWhile P xs) + length (dropWhile P xs) = length xs"
  by (induction xs) auto

lemma fold_longest_mem:
  "fold (\<lambda>x best. if length (fst best) < length (fst x) then x else best) ms m \<in> set (m # ms)"
  by (induction ms arbitrary: m) auto

lemma match_operator_Some:
  assumes "match_operator s = Some (spelling, op)"
  shows "spelling \<noteq> [] \<and> length spelling \<le> length s \<and> spelling = operator_spelling op"
proof -
  let ?cands = "filter (\<lambda>(spelling, op). take (length spelling) s = spelling) operator_symbols"
  from assms obtain m ms where ms: "?cands = m # ms"
    and sel: "(spelling, op) = fold (\<lambda>x best. if length (fst best) < length (fst x) then x else best) ms m"
    by (auto simp: match_operator_def split: list.splits)
  have "(spelling, op) \<in> set (m # ms)"
    unfolding sel by (rule fold_longest_mem)
  then have mem: "(spelling, op) \<in> set ?cands" by (simp only: ms)
  then have pre: "take (length spelling) s = spelling" and tab: "(spelling, op) \<in> set operator_symbols"
    by auto
  from tab have nm: "spelling = operator_spelling op"
    by (auto simp: operator_symbols_def)
  then have "spelling \<noteq> []" by (cases op) auto
  moreover have "length (take (length spelling) s) \<le> length s" by simp
  with pre have "length spelling \<le> length s" by simp
  ultimately show ?thesis using nm by simp
qed

lemma scan_progress:
  assumes "scan ctx = Inr (t, ctx')"
  shows "source ctx' = source ctx \<and> current ctx' = current ctx \<and> pos ctx \<le> pos ctx' \<and>
         (type t \<noteq> TOKEN_EOF \<longrightarrow> pos ctx < pos ctx' \<and> pos ctx' \<le> length (source ctx))"
proof -
  let ?rest = "drop (pos ctx) (source ctx)"
  let ?blank = "takeWhile is_space ?rest"
  let ?lexeme = "dropWhile is_space ?rest"
  have len: "length ?blank + length ?lexeme = length (source ctx) - pos ctx"
    using take_drop_while_length [of is_space ?rest] by simp
  show ?thesis
  proof (cases ?lexeme)
    case Nil
    with assms show ?thesis by (auto simp: scan_def Let_def make_token_def)
  next
    case (Cons c cs)
    have tw: "\<And>P. P c \<Longrightarrow> 0 < length (takeWhile P ?lexeme) \<and> length (takeWhile P ?lexeme) \<le> length ?lexeme"
      using Cons by (simp add: length_takeWhile_le)
    have mo: "\<And>sp op. match_operator ?lexeme = Some (sp, op) \<Longrightarrow> 0 < length sp \<and> length sp \<le> length ?lexeme"
      using match_operator_Some by blast
    from assms Cons len tw [of is_digit] tw [of "\<lambda>x. is_letter x \<or> is_digit x"] mo show ?thesis
      by (auto simp: scan_def Let_def make_token_def split: if_splits option.splits prod.splits)
  qed
qed



section \<open>The parser\<close>

text \<open>
  Modelled from the spec: the parser of section 4.2 (\<^verbatim>\<open>parse_expr\<close> of the missing
  sources, the specification's \<^verbatim>\<open>parse_expression\<close>). The parser keeps one
  current token in the context and advances by fetching the next one from the lexer; a
  lexer error is passed on unchanged.
\<close>

definition advance :: "context_t \<Rightarrow> error + context_t" where
  "advance ctx =
     (case scan ctx of
        Inl e \<Rightarrow> Inl e
      | Inr (token, ctx') \<Rightarrow> Inr (ctx'\<lparr>current := token\<rparr>))"


text \<open>
  Modelled from the spec: the binary operators are left associative; comparison binds
  weakest, then addition and subtraction, then multiplication, division and modulo. The
  prefix operators are arithmetic negation and logical negation. The assignment symbol
  and the parentheses are neither.
\<close>

fun binary_precedence :: "operator \<Rightarrow> nat option" where
  "binary_precedence OP_EQUALS = Some 1"
| "binary_precedence OP_NOT_EQUALS = Some 1"
| "binary_precedence OP_LESS = Some 1"
| "binary_precedence OP_LESS_EQUAL = Some 1"
| "binary_precedence OP_PLUS = Some 2"
| "binary_precedence OP_MINUS = Some 2"
| "binary_precedence OP_TIMES = Some 3"
| "binary_precedence OP_DIVIDE = Some 3"
| "binary_precedence OP_MODULO = Some 3"
| "binary_precedence op = None"

fun is_unary_operator :: "operator \<Rightarrow> bool" where
  "is_unary_operator OP_MINUS = True"
| "is_unary_operator OP_NOT = True"
| "is_unary_operator op = False"


text \<open>What is left to read: the unread bytes, and the current token unless it is the
  end of input. Consuming a current token makes it smaller.\<close>

definition remaining :: "context_t \<Rightarrow> nat" where
  "remaining ctx =
     (length (source ctx) - pos ctx) + (if type (current ctx) = TOKEN_EOF then 0 else 1)"

lemma advance_progress:
  assumes "advance ctx = Inr ctx'" and "type (current ctx) \<noteq> TOKEN_EOF"
  shows "remaining ctx' < remaining ctx"
proof -
  from assms(1) obtain t c1 where sc: "scan ctx = Inr (t, c1)" and c': "ctx' = c1\<lparr>current := t\<rparr>"
    by (auto simp: advance_def split: sum.splits)
  from scan_progress [OF sc] assms(2) show ?thesis
    by (auto simp: remaining_def c')
qed


text \<open>
  Modelled from the spec: the grammar of section 4.2, lowest precedence first. A
  conditional is the keyword \<^verbatim>\<open>if\<close>, the condition, the consequent, the keyword
  \<^verbatim>\<open>else\<close> and the alternative (the surface syntax of the specification's own
  example); binary expressions are parsed by precedence climbing
  (\<^verbatim>\<open>parse_binary_rest\<close> is its loop); then the prefix operators; then the primary
  expressions. The syntax tree has no variant for an identifier, so an identifier where
  a primary expression must start is an unexpected token, as is every other token that
  cannot start or continue the production.
\<close>

function parse_conditional :: "context_t \<Rightarrow> error + expr_t \<times> context_t"
  and parse_binary :: "nat \<Rightarrow> context_t \<Rightarrow> error + expr_t \<times> context_t"
  and parse_binary_rest :: "nat \<Rightarrow> expr_t \<Rightarrow> context_t \<Rightarrow> error + expr_t \<times> context_t"
  and parse_unary :: "context_t \<Rightarrow> error + expr_t \<times> context_t"
  and parse_primary :: "context_t \<Rightarrow> error + expr_t \<times> context_t"
where
  "parse_conditional ctx =
     (if type (current ctx) = TOKEN_KEYWORD KEYWORD_IF then
        case advance ctx of
          Inl e \<Rightarrow> Inl e
        | Inr c1 \<Rightarrow>
            (case parse_conditional c1 of
               Inl e \<Rightarrow> Inl e
             | Inr (condition, c2) \<Rightarrow>
                 (case parse_conditional c2 of
                    Inl e \<Rightarrow> Inl e
                  | Inr (consequent, c3) \<Rightarrow>
                      if type (current c3) = TOKEN_KEYWORD KEYWORD_ELSE then
                        case advance c3 of
                          Inl e \<Rightarrow> Inl e
                        | Inr c4 \<Rightarrow>
                            (case parse_conditional c4 of
                               Inl e \<Rightarrow> Inl e
                             | Inr (alternative, c5) \<Rightarrow>
                                 Inr (EXPR_IF condition consequent alternative, c5))
                      else Inl (ParseError (UnexpectedToken (current c3) PROD_CONDITIONAL))))
      else parse_binary 1 ctx)"
| "parse_binary min_prec ctx =
     (case parse_unary ctx of
        Inl e \<Rightarrow> Inl e
      | Inr (left, c1) \<Rightarrow> parse_binary_rest min_prec left c1)"
| "parse_binary_rest min_prec left ctx =
     (case type (current ctx) of
        TOKEN_OPERATOR op \<Rightarrow>
          (case binary_precedence op of
             Some prec \<Rightarrow>
               if min_prec \<le> prec then
                 case advance ctx of
                   Inl e \<Rightarrow> Inl e
                 | Inr c1 \<Rightarrow>
                     (case parse_binary (prec + 1) c1 of
                        Inl e \<Rightarrow> Inl e
                      | Inr (right, c2) \<Rightarrow>
                          parse_binary_rest min_prec (EXPR_BINARY op left right) c2)
               else Inr (left, ctx)
           | None \<Rightarrow> Inr (left, ctx))
      | _ \<Rightarrow> Inr (left, ctx))"
| "parse_unary ctx =
     (case type (current ctx) of
        TOKEN_OPERATOR op \<Rightarrow>
          if is_unary_operator op then
            case advance ctx of
              Inl e \<Rightarrow> Inl e
            | Inr c1 \<Rightarrow>
                (case parse_unary c1 of
                   Inl e \<Rightarrow> Inl e
                 | Inr (operand, c2) \<Rightarrow> Inr (EXPR_UNARY op operand, c2))
          else parse_primary ctx
      | _ \<Rightarrow> parse_primary ctx)"
| "parse_primary ctx =
     (case type (current ctx) of
        TOKEN_INTEGER \<Rightarrow>
          (case advance ctx of
             Inl e \<Rightarrow> Inl e
           | Inr c1 \<Rightarrow> Inr (EXPR_INTEGER (v_i (current ctx)), c1))
      | TOKEN_OPERATOR op \<Rightarrow>
          if op = OP_OPEN_PAREN then
            case advance ctx of
              Inl e \<Rightarrow> Inl e
            | Inr c1 \<Rightarrow>
                (case parse_conditional c1 of
                   Inl e \<Rightarrow> Inl e
                 | Inr (inner, c2) \<Rightarrow>
                     if type (current c2) = TOKEN_OPERATOR OP_CLOSE_PAREN then
                       case advance c2 of
                         Inl e \<Rightarrow> Inl e
                       | Inr c3 \<Rightarrow> Inr (inner, c3)
                     else Inl (ParseError (UnexpectedToken (current c2) PROD_PRIMARY)))
          else Inl (ParseError (UnexpectedToken (current ctx) PROD_PRIMARY))
      | _ \<Rightarrow> Inl (ParseError (UnexpectedToken (current ctx) PROD_PRIMARY)))"
  by pat_completeness auto


lemmas parse_dom_induct =
  parse_conditional_parse_binary_parse_binary_rest_parse_unary_parse_primary.pinduct

lemma advance_progress':
  "advance ctx = Inr ctx' \<Longrightarrow> type (current ctx) = TOKEN_KEYWORD k \<Longrightarrow> remaining ctx' < remaining ctx"
  "advance ctx = Inr ctx' \<Longrightarrow> type (current ctx) = TOKEN_OPERATOR op \<Longrightarrow> remaining ctx' < remaining ctx"
  "advance ctx = Inr ctx' \<Longrightarrow> type (current ctx) = TOKEN_INTEGER \<Longrightarrow> remaining ctx' < remaining ctx"
  by (auto dest: advance_progress)

lemma parse_progress_dom:
  "parse_conditional_parse_binary_parse_binary_rest_parse_unary_parse_primary_dom (Inl (Inl ctx1)) \<Longrightarrow>
     (\<forall>e c'. parse_conditional ctx1 = Inr (e, c') \<longrightarrow> remaining c' < remaining ctx1)"
  "parse_conditional_parse_binary_parse_binary_rest_parse_unary_parse_primary_dom (Inl (Inr (p2, ctx2))) \<Longrightarrow>
     (\<forall>e c'. parse_binary p2 ctx2 = Inr (e, c') \<longrightarrow> remaining c' < remaining ctx2)"
  "parse_conditional_parse_binary_parse_binary_rest_parse_unary_parse_primary_dom (Inr (Inl (p3, l3, ctx3))) \<Longrightarrow>
     (\<forall>e c'. parse_binary_rest p3 l3 ctx3 = Inr (e, c') \<longrightarrow> remaining c' \<le> remaining ctx3)"
  "parse_conditional_parse_binary_parse_binary_rest_parse_unary_parse_primary_dom (Inr (Inr (Inl ctx4))) \<Longrightarrow>
     (\<forall>e c'. parse_unary ctx4 = Inr (e, c') \<longrightarrow> remaining c' < remaining ctx4)"
  "parse_conditional_parse_binary_parse_binary_rest_parse_unary_parse_primary_dom (Inr (Inr (Inr ctx5))) \<Longrightarrow>
     (\<forall>e c'. parse_primary ctx5 = Inr (e, c') \<longrightarrow> remaining c' < remaining ctx5)"
proof (induct rule: parse_dom_induct)
  case (1 ctx)
  show ?case
  proof (intro allI impI)
    fix e c' assume r: "parse_conditional ctx = Inr (e, c')"
    show "remaining c' < remaining ctx"
    proof (cases "type (current ctx) = TOKEN_KEYWORD KEYWORD_IF")
      case False
      with r "1.hyps"(1) have "parse_binary 1 ctx = Inr (e, c')"
        by (simp add: parse_conditional.psimps)
      with "1.hyps"(5) [OF False] show ?thesis by blast
    next
      case True
      with r "1.hyps"(1) obtain c1 cond c2 cons c3 c4 alt where
        a1: "advance ctx = Inr c1" and p1: "parse_conditional c1 = Inr (cond, c2)"
        and p2: "parse_conditional c2 = Inr (cons, c3)"
        and el: "type (current c3) = TOKEN_KEYWORD KEYWORD_ELSE"
        and a2: "advance c3 = Inr c4" and p3: "parse_conditional c4 = Inr (alt, c')"
        by (auto simp: parse_conditional.psimps split: sum.splits if_splits)
      have "remaining c1 < remaining ctx" using a1 True by (rule advance_progress'(1))
      moreover have "remaining c2 < remaining c1" using "1.hyps"(2) [OF True a1] p1 by blast
      moreover have "remaining c3 < remaining c2"
        using "1.hyps"(3) [OF True a1 p1 refl] p2 by blast
      moreover have "remaining c4 < remaining c3" using a2 el by (rule advance_progress'(1))
      moreover have "remaining c' < remaining c4"
        using "1.hyps"(4) [OF True a1 p1 refl p2 refl el a2] p3 by blast
      ultimately show ?thesis by linarith
    qed
  qed
next
  case (2 min_prec ctx)
  show ?case
  proof (intro allI impI)
    fix e c' assume r: "parse_binary min_prec ctx = Inr (e, c')"
    with "2.hyps"(1) obtain left c1 where u: "parse_unary ctx = Inr (left, c1)"
      and b: "parse_binary_rest min_prec left c1 = Inr (e, c')"
      by (auto simp: parse_binary.psimps split: sum.splits)
    have "remaining c1 < remaining ctx" using "2.hyps"(2) u by blast
    moreover have "remaining c' \<le> remaining c1" using "2.hyps"(3) [OF u refl] b by blast
    ultimately show "remaining c' < remaining ctx" by linarith
  qed
next
  case (3 min_prec left ctx)
  show ?case
  proof (intro allI impI)
    fix e c' assume r: "parse_binary_rest min_prec left ctx = Inr (e, c')"
    show "remaining c' \<le> remaining ctx"
    proof (cases "\<exists>op prec. type (current ctx) = TOKEN_OPERATOR op \<and> binary_precedence op = Some prec \<and> min_prec \<le> prec")
      case False
      with r "3.hyps"(1) have "c' = ctx"
        by (auto simp: parse_binary_rest.psimps split: token_type.splits option.splits if_splits)
      then show ?thesis by simp
    next
      case True
      then obtain op prec where t: "type (current ctx) = TOKEN_OPERATOR op"
        and bp: "binary_precedence op = Some prec" and le: "min_prec \<le> prec" by blast
      with r "3.hyps"(1) obtain c1 right c2 where a: "advance ctx = Inr c1"
        and pb: "parse_binary (prec + 1) c1 = Inr (right, c2)"
        and pr: "parse_binary_rest min_prec (EXPR_BINARY op left right) c2 = Inr (e, c')"
        by (auto simp: parse_binary_rest.psimps split: sum.splits)
      have "remaining c1 < remaining ctx" using a t by (rule advance_progress'(2))
      moreover have "remaining c2 < remaining c1" using "3.hyps"(2) [OF t bp le a] pb by blast
      moreover have "remaining c' \<le> remaining c2"
        using "3.hyps"(3) [OF t bp le a pb refl] pr by blast
      ultimately show ?thesis by linarith
    qed
  qed
next
  case (4 ctx)
  show ?case
  proof (intro allI impI)
    fix e c' assume r: "parse_unary ctx = Inr (e, c')"
    show "remaining c' < remaining ctx"
    proof (cases "\<exists>op. type (current ctx) = TOKEN_OPERATOR op \<and> is_unary_operator op")
      case True
      then obtain op where t: "type (current ctx) = TOKEN_OPERATOR op" and u: "is_unary_operator op"
        by blast
      with r "4.hyps"(1) obtain c1 operand where a: "advance ctx = Inr c1"
        and pu: "parse_unary c1 = Inr (operand, c')"
        by (auto simp: parse_unary.psimps split: sum.splits)
      have "remaining c1 < remaining ctx" using a t by (rule advance_progress'(2))
      moreover have "remaining c' < remaining c1" using "4.hyps"(3) [OF t u a] pu by blast
      ultimately show ?thesis by linarith
    next
      case False
      with r "4.hyps"(1) have pp: "parse_primary ctx = Inr (e, c')"
        by (auto simp: parse_unary.psimps split: token_type.splits if_splits)
      from False "4.hyps"(2,4,5,6,7) have "\<forall>e c'. parse_primary ctx = Inr (e, c') \<longrightarrow> remaining c' < remaining ctx"
        by (cases "type (current ctx)") auto
      with pp show ?thesis by blast
    qed
  qed
next
  case (5 ctx)
  show ?case
  proof (intro allI impI)
    fix e c' assume r: "parse_primary ctx = Inr (e, c')"
    show "remaining c' < remaining ctx"
    proof (cases "type (current ctx)")
      case TOKEN_INTEGER
      with r "5.hyps"(1) have "advance ctx = Inr c'"
        by (auto simp: parse_primary.psimps split: sum.splits)
      then show ?thesis using TOKEN_INTEGER by (rule advance_progress'(3))
    next
      case (TOKEN_OPERATOR op)
      with r "5.hyps"(1) obtain c1 c2 where op: "op = OP_OPEN_PAREN" and a1: "advance ctx = Inr c1"
        and pc: "parse_conditional c1 = Inr (e, c2)"
        and cl: "type (current c2) = TOKEN_OPERATOR OP_CLOSE_PAREN"
        and a2: "advance c2 = Inr c'"
        by (auto simp: parse_primary.psimps split: sum.splits if_splits)
      have "remaining c1 < remaining ctx" using a1 TOKEN_OPERATOR by (rule advance_progress'(2))
      moreover have "remaining c2 < remaining c1" using "5.hyps"(2) [OF TOKEN_OPERATOR op a1] pc by blast
      moreover have "remaining c' < remaining c2" using a2 cl by (rule advance_progress'(2))
      ultimately show ?thesis by linarith
    qed (use r "5.hyps"(1) in \<open>auto simp: parse_primary.psimps\<close>)
  qed
qed


lemma parse_conditional_progress_dom:
  "parse_conditional_parse_binary_parse_binary_rest_parse_unary_parse_primary_dom (Inl (Inl ctx)) \<Longrightarrow>
   parse_conditional ctx = Inr (e, c') \<Longrightarrow> remaining c' < remaining ctx"
  using parse_progress_dom(1) by blast

lemma parse_binary_progress_dom:
  "parse_conditional_parse_binary_parse_binary_rest_parse_unary_parse_primary_dom (Inl (Inr (p, ctx))) \<Longrightarrow>
   parse_binary p ctx = Inr (e, c') \<Longrightarrow> remaining c' < remaining ctx"
  using parse_progress_dom(2) by blast

lemma parse_unary_progress_dom:
  "parse_conditional_parse_binary_parse_binary_rest_parse_unary_parse_primary_dom (Inr (Inr (Inl ctx))) \<Longrightarrow>
   parse_unary ctx = Inr (e, c') \<Longrightarrow> remaining c' < remaining ctx"
  using parse_progress_dom(4) by blast

termination parse_conditional
proof (relation "measure (\<lambda>x. case x of
      Inl (Inl ctx) \<Rightarrow> 5 * remaining ctx + 4
    | Inl (Inr (p, ctx)) \<Rightarrow> 5 * remaining ctx + 3
    | Inr (Inl (p, l, ctx)) \<Rightarrow> 5 * remaining ctx + 4
    | Inr (Inr (Inl ctx)) \<Rightarrow> 5 * remaining ctx + 2
    | Inr (Inr (Inr ctx)) \<Rightarrow> 5 * remaining ctx + 1)", goal_cases)
  case 1
  show ?case by simp
next
  case (2 ctx c1)
  then show ?case using advance_progress'(1) [of ctx c1] by simp
next
  case (3 ctx c1 r x c2)
  then show ?case
    using advance_progress'(1) [of ctx c1] parse_conditional_progress_dom [of c1 x c2] by simp
next
  case (4 ctx c1 r x c2 r' x' c3 c4)
  then show ?case
    using advance_progress'(1) [of ctx c1] parse_conditional_progress_dom [of c1 x c2]
      parse_conditional_progress_dom [of c2 x' c3] advance_progress'(1) [of c3 c4]
    by simp
next
  case 5
  show ?case by simp
next
  case 6
  show ?case by simp
next
  case (7 min_prec ctx r x c1)
  then show ?case using parse_unary_progress_dom [of ctx x c1] by auto
next
  case (8 min_prec left ctx op prec c1)
  then show ?case using advance_progress'(2) [of ctx c1] by simp
next
  case (9 min_prec left ctx op prec c1 r x c2)
  then show ?case
    using advance_progress'(2) [of ctx c1] parse_binary_progress_dom [of "prec + 1" c1 x c2] by simp
next
  case 10
  show ?case by simp
next
  case (11 ctx op c1)
  then show ?case using advance_progress'(2) [of ctx c1] by simp
next
  case 12 show ?case by simp
next
  case 13 show ?case by simp
next
  case 14 show ?case by simp
next
  case 15 show ?case by simp
next
  case (16 ctx op c1)
  then show ?case using advance_progress'(2) [of ctx c1] by simp
qed


declare parse_conditional.simps [simp del] parse_binary.simps [simp del]
  parse_binary_rest.simps [simp del] parse_unary.simps [simp del] parse_primary.simps [simp del]

text \<open>Modelled from the spec: the parser entry point. It fetches the first token and
  parses one expression.\<close>

definition parse_expr :: "context_t \<Rightarrow> error + expr_t \<times> context_t" where
  "parse_expr ctx =
     (case advance ctx of
        Inl e \<Rightarrow> Inl e
      | Inr c1 \<Rightarrow> parse_conditional c1)"

text \<open>The invariant of section 3 of the specification: every node is one of the four
  variants (\<open>expr_type_valid\<close>), and its operator fits its variant.\<close>

fun expr_type_valid :: "expr_t \<Rightarrow> bool" where
  "expr_type_valid (EXPR_INTEGER i) = True"
| "expr_type_valid (EXPR_IF condition consequent alternative) =
     (expr_type_valid condition \<and> expr_type_valid consequent \<and> expr_type_valid alternative)"
| "expr_type_valid (EXPR_UNARY op operand) = expr_type_valid operand"
| "expr_type_valid (EXPR_BINARY op left right) = (expr_type_valid left \<and> expr_type_valid right)"
| "expr_type_valid (EXPR_OTHER n) = False"

fun expr_wellformed :: "expr_t \<Rightarrow> bool" where
  "expr_wellformed (EXPR_INTEGER i) = True"
| "expr_wellformed (EXPR_IF condition consequent alternative) =
     (expr_wellformed condition \<and> expr_wellformed consequent \<and> expr_wellformed alternative)"
| "expr_wellformed (EXPR_UNARY op operand) = (is_unary_operator op \<and> expr_wellformed operand)"
| "expr_wellformed (EXPR_BINARY op left right) =
     (binary_precedence op \<noteq> None \<and> expr_wellformed left \<and> expr_wellformed right)"
| "expr_wellformed (EXPR_OTHER n) = False"

text \<open>What the parser may return: a tree that satisfies the invariant of section 3, or a
  lexer error or a parse error.\<close>

definition parse_ok :: "error + expr_t \<times> context_t \<Rightarrow> bool" where
  "parse_ok r =
     (case r of
        Inr (e, c) \<Rightarrow> expr_wellformed e
      | Inl err \<Rightarrow> (\<exists>le. err = LexError le) \<or> (\<exists>pe. err = ParseError pe))"

section \<open>The evaluator\<close>

text \<open>
  Modelled from the spec: the evaluator of section 4.3 (\<^verbatim>\<open>eval_expr\<close> of the missing
  sources, the specification's \<^verbatim>\<open>evaluate\<close>). The specification leaves the overflow
  policy to be fixed: here every arithmetic result outside the signed 64-bit range is
  \<^verbatim>\<open>Overflow\<close>. Division and modulo truncate towards zero and fail on a zero
  divisor. Comparisons and logical negation give 1 or 0. The specification defines the
  evaluator on the supported operators only; an operator that does not fit its node, and
  a node of no known variant, end in \<^verbatim>\<open>AssertionFailed\<close> as in the driver's
  \<^verbatim>\<open>print_expr\<close>.
\<close>

definition checked :: "int \<Rightarrow> error + int64_t" where
  "checked i = (if - (2 ^ 63) \<le> i \<and> i < 2 ^ 63 then Inr (word_of_int i) else Inl (EvalError Overflow))"

definition truth :: "bool \<Rightarrow> int64_t" where
  "truth b = (if b then 1 else 0)"

fun apply_unary :: "operator \<Rightarrow> int64_t \<Rightarrow> error + int64_t" where
  "apply_unary OP_MINUS a = checked (- sint a)"
| "apply_unary OP_NOT a = Inr (truth (a = 0))"
| "apply_unary op a = Inl AssertionFailed"

fun apply_binary :: "operator \<Rightarrow> int64_t \<Rightarrow> int64_t \<Rightarrow> error + int64_t" where
  "apply_binary OP_PLUS a b = checked (sint a + sint b)"
| "apply_binary OP_MINUS a b = checked (sint a - sint b)"
| "apply_binary OP_TIMES a b = checked (sint a * sint b)"
| "apply_binary OP_DIVIDE a b =
     (if b = 0 then Inl (EvalError DivisionByZero) else checked (sint a sdiv sint b))"
| "apply_binary OP_MODULO a b =
     (if b = 0 then Inl (EvalError DivisionByZero) else checked (sint a smod sint b))"
| "apply_binary OP_EQUALS a b = Inr (truth (a = b))"
| "apply_binary OP_NOT_EQUALS a b = Inr (truth (a \<noteq> b))"
| "apply_binary OP_LESS a b = Inr (truth (sint a < sint b))"
| "apply_binary OP_LESS_EQUAL a b = Inr (truth (sint a \<le> sint b))"
| "apply_binary op a b = Inl AssertionFailed"

fun eval_expr :: "expr_t \<Rightarrow> error + int64_t" where
  "eval_expr (EXPR_INTEGER i) = Inr i"
| "eval_expr (EXPR_IF condition consequent alternative) =
     (case eval_expr condition of
        Inl e \<Rightarrow> Inl e
      | Inr c \<Rightarrow> if c \<noteq> 0 then eval_expr consequent else eval_expr alternative)"
| "eval_expr (EXPR_UNARY op operand) =
     (case eval_expr operand of
        Inl e \<Rightarrow> Inl e
      | Inr a \<Rightarrow> apply_unary op a)"
| "eval_expr (EXPR_BINARY op left right) =
     (case eval_expr left of
        Inl e \<Rightarrow> Inl e
      | Inr a \<Rightarrow>
          (case eval_expr right of
             Inl e \<Rightarrow> Inl e
           | Inr b \<Rightarrow> apply_binary op a b))"
| "eval_expr (EXPR_OTHER n) = Inl AssertionFailed"

section \<open>The driver (main.c)\<close>

text \<open>
  Modelled from the spec: what \<^verbatim>\<open>scan_init\<close> of the missing sources computes (the
  specification's \<^verbatim>\<open>init\<close>, section 6). It reads the named file (the files that
  can be read are a map from paths to contents) and fails with \<^verbatim>\<open>IoError\<close> when it
  cannot; the context starts at the beginning of the buffer, with no token fetched yet.
\<close>

definition initial_context :: "string \<Rightarrow> context_t" where
  "initial_context contents =
     \<lparr>source = contents, pos = 0, line = 1, current = make_token TOKEN_EOF\<rparr>"

definition scan_init :: "(string \<rightharpoonup> string) \<Rightarrow> string \<Rightarrow> error + context_t" where
  "scan_init files path =
     (case files path of
        None \<Rightarrow> Inl (IoError path)
      | Some contents \<Rightarrow> Inr (initial_context contents))"

text \<open>
  main.c calls four functions that \<^verbatim>\<open>compiler.h\<close> declares and that are defined in
  files that are not among the sources. The driver is modelled for every choice of them;
  they are its parameters, with the result types their call sites in main.c give them:
  \<^verbatim>\<open>scan_init(&ctx, argv[1])\<close> is a statement that fills the context (line 83),
  \<^verbatim>\<open>token_t token = scan(ctx)\<close> (line 11),
  \<^verbatim>\<open>expr_t *expr = parse_expr(ctx)\<close> (lines 61 and 68) and
  \<^verbatim>\<open>int64_t result = eval_expr(expr)\<close> (line 69). The functions that take the
  context by pointer may update it, so they return the updated context too. None of the
  call sites receives an error value or tests what it receives.
\<close>

record compiler_h =
  c_scan_init :: "string \<Rightarrow> context_t"
  c_scan :: "context_t \<Rightarrow> token_t \<times> context_t"
  c_parse_expr :: "context_t \<Rightarrow> expr_t \<times> context_t"
  c_eval_expr :: "expr_t \<Rightarrow> int64_t"

text \<open>
  \<^verbatim>\<open>scan_main\<close>, lines 7 to 27: the loop calls \<^verbatim>\<open>scan\<close>, leaves at
  \<^verbatim>\<open>TOKEN_EOF\<close> and prints every other token. It runs for as long as the lexer
  returns other tokens: the result is \<open>None\<close> when the loop never ends, and otherwise
  what was printed, with the assertion failure that aborted the loop if one did.
\<close>

partial_function (option) scan_main :: "compiler_h \<Rightarrow> context_t \<Rightarrow> printed option" where
  "scan_main S ctx =
     (case c_scan S ctx of
        (token, ctx') \<Rightarrow>
          if type token = TOKEN_EOF then Some (printf [])
          else (case print_token token of
                  (out, Some e) \<Rightarrow> Some (out, Some e)
                | (out, None) \<Rightarrow>
                    Option.bind (scan_main S ctx') (\<lambda>rest. Some (and_then (printf out) rest))))"

text \<open>\<^verbatim>\<open>parse_main\<close>, lines 58 to 63, and \<^verbatim>\<open>eval_main\<close>, lines 65 to 71.\<close>

definition parse_main :: "compiler_h \<Rightarrow> context_t \<Rightarrow> printed" where
  "parse_main S ctx =
     (case c_parse_expr S ctx of
        (expr, ctx') \<Rightarrow> print_expr expr 0)"

definition eval_main :: "compiler_h \<Rightarrow> context_t \<Rightarrow> printed" where
  "eval_main S ctx =
     (case c_parse_expr S ctx of
        (expr, ctx') \<Rightarrow>
          (let result = c_eval_expr S expr
           in printf (PRId64 result @ ''\<newline>'')))"

text \<open>
  \<^verbatim>\<open>main\<close>, lines 73 to 90. \<^verbatim>\<open>argc\<close> is the number of entries of
  \<^verbatim>\<open>argv\<close>. A run ends in one of two ways: \<^verbatim>\<open>main\<close> returns its status,
  having printed to the two streams, or an \<^verbatim>\<open>assert(false)\<close> aborts the process
  before \<^verbatim>\<open>main\<close> returns, after what was printed to standard output (what
  \<^verbatim>\<open>assert\<close> then writes to standard error is left to the C library). The calls of
  \<^verbatim>\<open>scan_main\<close> and \<^verbatim>\<open>eval_main\<close> are commented out in the source (lines 85
  and 87), so \<^verbatim>\<open>main\<close> calls \<^verbatim>\<open>scan_init\<close> and \<^verbatim>\<open>parse_main\<close>, tests
  nothing of what they did, and returns 0.
\<close>

datatype run =
    Returned (stdout: string) (stderr: string) (status: int)
  | Aborted (stdout: string) (failure: error)

definition main :: "compiler_h \<Rightarrow> string list \<Rightarrow> run" where
  "main S argv =
     (if int (length argv) \<noteq> 2 then Returned [] ''Usage: simplang FILE\<newline>'' 1
      else
        (let ctx = c_scan_init S (argv ! 1)
         in (case parse_main S ctx of
               (out, None) \<Rightarrow> Returned out [] 0
             | (out, Some e) \<Rightarrow> Aborted out e)))"

text \<open>
  Modelled from the spec: stage functions with the signatures of \<^verbatim>\<open>compiler.h\<close>
  that compute what the initialisation, the lexer, the parser and the evaluator of the
  specification compute. The theorems about the driver hold for every choice of the
  stage functions; the driver is run on these ones in the examples. A function with such
  a signature has no error to return: where the function of the specification gives an
  error, the function here returns a fixed value of its result type (an empty buffer for
  a file that cannot be read, the end-of-input token, the literal 0, the value 0).
\<close>

definition returned :: "'a \<Rightarrow> error + 'a \<Rightarrow> 'a" where
  "returned d r = (case r of Inl e \<Rightarrow> d | Inr x \<Rightarrow> x)"

definition spec_stages :: "(string \<rightharpoonup> string) \<Rightarrow> compiler_h" where
  "spec_stages files =
     \<lparr>c_scan_init = (\<lambda>path. returned (initial_context []) (scan_init files path)),
      c_scan = (\<lambda>ctx. returned (make_token TOKEN_EOF, ctx) (scan ctx)),
      c_parse_expr = (\<lambda>ctx. returned (EXPR_INTEGER 0, ctx) (parse_expr ctx)),
      c_eval_expr = (\<lambda>expr. returned 0 (eval_expr expr))\<rparr>"

section \<open>Properties of the printers\<close>

lemma and_then_printf [simp]:
  "and_then (printf s) (out, r) = (s @ out, r)"
  "and_then (printf s) (printf s') = printf (s @ s')"
  "and_then (printf s) (abort e) = (s, Some e)"
  by (simp_all add: printf_def abort_def)

lemma digit_char_mem: "n < 10 \<Longrightarrow> ''0123456789'' ! n \<in> set ''0123456789''"
  by (rule nth_mem) simp

lemma decimal_nat_digits: "set (decimal_nat n) \<subseteq> set ''0123456789''"
proof (induction n rule: decimal_nat.induct)
  case (1 n)
  show ?case
  proof (cases "n < 10")
    case True
    then show ?thesis
      using digit_char_mem [of n] by (subst decimal_nat.simps) simp
  next
    case False
    have "n mod 10 < 10" by simp
    from digit_char_mem [OF this] 1 [OF False] False show ?thesis
      by (subst decimal_nat.simps) simp
  qed
qed

lemma decimal_no_newline: "CHR 0x0A \<notin> set (decimal i)"
  using decimal_nat_digits [of "nat i"] decimal_nat_digits [of "nat (- i)"]
  by (auto simp: decimal_def)

text \<open>The decimal digits printed for a number read back as that number.\<close>

lemma digit_value: "n < 10 \<Longrightarrow> (of_char (''0123456789'' ! n) :: nat) = 48 + n"
proof -
  assume n: "n < 10"
  have m: "map (of_char :: char \<Rightarrow> nat) ''0123456789'' = map (\<lambda>k. 48 + k) [0..<10]"
    by (simp add: upt_rec)
  have "(of_char (''0123456789'' ! n) :: nat) = map of_char ''0123456789'' ! n"
    by (rule nth_map [symmetric]) (use n in simp)
  also have "\<dots> = map (\<lambda>k. 48 + k) [0..<10] ! n" by (simp only: m)
  also have "\<dots> = 48 + n" using n by simp
  finally show ?thesis .
qed

lemma number_of_snoc: "number_of (ds @ [c]) = 10 * number_of ds + (of_char c - 48)"
  by (simp add: number_of_def)

lemma decimal_nat_number_of: "number_of (decimal_nat n) = n"
proof (induction n rule: decimal_nat.induct)
  case (1 n)
  show ?case
  proof (cases "n < 10")
    case True
    then show ?thesis
      using digit_value [of n] by (subst decimal_nat.simps) (simp add: number_of_def)
  next
    case False
    have "n mod 10 < 10" by simp
    from digit_value [OF this] 1 [OF False] False show ?thesis
      by (subst decimal_nat.simps) (simp add: number_of_snoc)
  qed
qed

lemma operator_name_no_newline: "CHR 0x0A \<notin> set (token_type_operator_name t)"
proof (cases t)
  case (TOKEN_OPERATOR op)
  then show ?thesis by (cases op) simp_all
qed simp_all

lemma keyword_name_no_newline: "CHR 0x0A \<notin> set (token_type_keyword_name t)"
proof (cases t)
  case (TOKEN_KEYWORD k)
  then show ?thesis by (cases k) simp_all
qed simp_all

text \<open>Up to \<^verbatim>\<open>INT_MAX\<close> the indent counts the nesting levels.\<close>

lemma sint_of_nat_small: "d < 2 ^ 31 \<Longrightarrow> sint (of_nat d :: c_int) = int d"
proof -
  assume "d < 2 ^ 31"
  then have "int d < 2 ^ 31" by (metis of_nat_less_iff of_nat_numeral of_nat_power)
  then have "signed_take_bit 31 (int d) = int d"
    by (intro signed_take_bit_int_eq_self) simp_all
  then show ?thesis by (simp add: signed_of_nat)
qed

lemma print_indent_of_nat:
  "d < 2 ^ 31 \<Longrightarrow> print_indent (of_nat d) = concat (replicate d ''  '')"
  by (simp add: print_indent_def sint_of_nat_small)

lemma indent_Suc: "(of_nat d :: c_int) + 1 = of_nat (Suc d)"
  by simp

lemma print_expr_dump:
  "expr_type_valid e \<Longrightarrow> d + expr_height e < 2 ^ 31 \<Longrightarrow>
   print_expr e (of_nat d) = printf (concat (map dump_line (dump d e)))"
proof (induction e arbitrary: d)
  case (EXPR_INTEGER i)
  then show ?case by (simp add: dump_line_def print_indent_of_nat PRId64_def)
next
  case (EXPR_IF c a b)
  from EXPR_IF.prems have "Suc d + expr_height c < 2 ^ 31" "Suc d + expr_height a < 2 ^ 31"
    "Suc d + expr_height b < 2 ^ 31" "d < 2 ^ 31"
    by simp_all
  with EXPR_IF.IH [of "Suc d"] EXPR_IF.prems show ?case
    by (simp add: indent_Suc dump_line_def print_indent_of_nat del: of_nat_Suc)
next
  case (EXPR_UNARY op e)
  from EXPR_UNARY.prems have "Suc d + expr_height e < 2 ^ 31" "d < 2 ^ 31" by simp_all
  with EXPR_UNARY.IH [of "Suc d"] EXPR_UNARY.prems show ?case
    by (simp add: indent_Suc dump_line_def print_indent_of_nat del: of_nat_Suc)
next
  case (EXPR_BINARY op l r)
  from EXPR_BINARY.prems have "Suc d + expr_height l < 2 ^ 31" "Suc d + expr_height r < 2 ^ 31"
    "d < 2 ^ 31"
    by simp_all
  with EXPR_BINARY.IH [of "Suc d"] EXPR_BINARY.prems show ?case
    by (simp add: indent_Suc dump_line_def print_indent_of_nat del: of_nat_Suc)
next
  case (EXPR_OTHER n)
  then show ?case by simp
qed

text \<open>Past \<^verbatim>\<open>INT_MAX\<close> it does not: the leaf of a tree of height \<open>2 ^ 31\<close> is printed
  with no indent at all, \<open>2 ^ 32\<close> characters short of its line in the dump.\<close>

lemma length_indent: "length (concat (replicate n ''  '')) = 2 * n"
  by (induction n) simp_all

lemma negations_lengths:
  "d + n \<le> 2 ^ 31 \<Longrightarrow>
   length (fst (print_expr (negations n) (of_nat d))) + (if d + n = 2 ^ 31 then 2 ^ 32 else 0) =
   length (concat (map dump_line (dump d (negations n))))"
proof (induction n arbitrary: d)
  case 0
  show ?case
  proof (cases "d = 2 ^ 31")
    case True
    then have "print_indent (of_nat d) = []" by (simp add: print_indent_def)
    with True show ?thesis
      by (simp add: dump_line_def length_indent PRId64_def printf_def)
  next
    case False
    with 0 have "d < 2 ^ 31" by simp
    with False show ?thesis
      by (simp add: print_indent_of_nat dump_line_def PRId64_def printf_def)
  qed
next
  case (Suc n)
  then have d: "d < 2 ^ 31" and b: "Suc d + n \<le> 2 ^ 31" by simp_all
  obtain out r where p: "print_expr (negations n) (of_nat (Suc d)) = (out, r)"
    by (cases "print_expr (negations n) (of_nat (Suc d))")
  from Suc.IH [OF b] p d show ?case
    by (simp add: print_indent_of_nat dump_line_def indent_Suc printf_def del: of_nat_Suc)
qed

lemma dump_length: "expr_type_valid e \<Longrightarrow> length (dump d e) = expr_nodes e"
  by (induction e arbitrary: d) simp_all

lemma dump_labels: "(k, l) \<in> set (dump d e) \<Longrightarrow> CHR 0x0A \<notin> set l \<and> d \<le> k"
proof (induction e arbitrary: d)
  case (EXPR_INTEGER i)
  then show ?case using decimal_no_newline by auto
next
  case (EXPR_IF c a b)
  then show ?case by fastforce
next
  case (EXPR_UNARY op e)
  then show ?case using operator_name_no_newline [of "TOKEN_OPERATOR op"] by fastforce
next
  case (EXPR_BINARY op l r)
  then show ?case using operator_name_no_newline [of "TOKEN_OPERATOR op"] by fastforce
next
  case (EXPR_OTHER n)
  then show ?case by simp
qed


lemma newlines_indent: "filter (\<lambda>c. c = CHR 0x0A) (concat (replicate k ''  '')) = []"
  by (induction k) simp_all

lemma newlines_dump_lines:
  "\<forall>x\<in>set xs. CHR 0x0A \<notin> set (snd x) \<Longrightarrow>
   length (filter (\<lambda>c. c = CHR 0x0A) (concat (map dump_line xs))) = length xs"
proof (induction xs)
  case Nil
  show ?case by simp
next
  case (Cons x xs)
  then have "CHR 0x0A \<notin> set (snd x)" by simp
  then have "filter (\<lambda>c. c = CHR 0x0A) (snd x) = []" by (auto simp: filter_empty_conv)
  then have "filter (\<lambda>c. c = CHR 0x0A) (dump_line x) = [CHR 0x0A]"
    by (simp add: dump_line_def newlines_indent)
  moreover have "length (filter (\<lambda>c. c = CHR 0x0A) (concat (map dump_line xs))) = length xs"
    using Cons by simp
  ultimately show ?case by simp
qed

lemma print_expr_status:
  "snd (print_expr e indent) = (if expr_type_valid e then None else Some AssertionFailed)"
proof (induction e arbitrary: indent)
  case (EXPR_INTEGER i)
  show ?case by (simp add: printf_def)
next
  case (EXPR_IF c a b)
  show ?case
    using EXPR_IF [of "indent + 1"]
    by (cases "print_expr c (indent + 1)"; cases "print_expr a (indent + 1)";
        cases "print_expr b (indent + 1)") (auto split: if_splits)
next
  case (EXPR_UNARY op e)
  show ?case
    using EXPR_UNARY [of "indent + 1"]
    by (cases "print_expr e (indent + 1)") (auto split: if_splits)
next
  case (EXPR_BINARY op l r)
  show ?case
    using EXPR_BINARY [of "indent + 1"]
    by (cases "print_expr l (indent + 1)"; cases "print_expr r (indent + 1)")
       (auto split: if_splits)
next
  case (EXPR_OTHER n)
  show ?case by simp
qed

lemma print_token_status:
  "snd (print_token token) = (if type token = TOKEN_EOF then Some AssertionFailed else None)"
  by (cases "type token") (simp_all add: print_token_def printf_def abort_def)

section \<open>Properties of the lexer and the parser\<close>

lemma scan_error: "scan ctx = Inl e \<Longrightarrow> \<exists>le. e = LexError le"
  by (auto simp: scan_def Let_def split: list.splits if_splits option.splits prod.splits)

lemma advance_error: "advance ctx = Inl e \<Longrightarrow> \<exists>le. e = LexError le"
  by (auto simp: advance_def dest: scan_error split: sum.splits prod.splits)

lemma parse_ok_simps [simp]:
  "parse_ok (Inr (e, c)) = expr_wellformed e"
  "parse_ok (Inl (ParseError pe))"
  "parse_ok (Inl (LexError le))"
  by (simp_all add: parse_ok_def)

lemma parse_ok_advance: "advance ctx = Inl e \<Longrightarrow> parse_ok (Inl e)"
  by (auto dest: advance_error)

lemmas parse_induct = parse_conditional_parse_binary_parse_binary_rest_parse_unary_parse_primary.induct

lemma parse_wellformed:
  "parse_ok (parse_conditional ctx1)"
  "parse_ok (parse_binary p2 ctx2)"
  "expr_wellformed l3 \<longrightarrow> parse_ok (parse_binary_rest p3 l3 ctx3)"
  "parse_ok (parse_unary ctx4)"
  "parse_ok (parse_primary ctx5)"
proof (induct ctx1 and p2 ctx2 and p3 l3 ctx3 and ctx4 and ctx5 rule: parse_induct)
  case (1 ctx)
  show ?case
  proof (cases "type (current ctx) = TOKEN_KEYWORD KEYWORD_IF")
    case False
    with "1"(4) show ?thesis by (subst parse_conditional.simps) simp
  next
    case True
    show ?thesis
    proof (cases "advance ctx")
      case (Inl e)
      with True show ?thesis
        by (subst parse_conditional.simps) (auto dest: parse_ok_advance)
    next
      case a1: (Inr c1)
      have ih1: "parse_ok (parse_conditional c1)" using "1"(1) [OF True a1] .
      show ?thesis
      proof (cases "parse_conditional c1")
        case (Inl e)
        with True a1 ih1 show ?thesis by (subst parse_conditional.simps) simp
      next
        case (Inr r1)
        then obtain cond c2 where p1: "parse_conditional c1 = Inr (cond, c2)" by (cases r1) simp
        have ih2: "parse_ok (parse_conditional c2)" using "1"(2) [OF True a1 p1 refl] .
        show ?thesis
        proof (cases "parse_conditional c2")
          case (Inl e)
          with True a1 p1 ih2 show ?thesis by (subst parse_conditional.simps) simp
        next
          case (Inr r2)
          then obtain cons c3 where p2: "parse_conditional c2 = Inr (cons, c3)" by (cases r2) simp
          show ?thesis
          proof (cases "type (current c3) = TOKEN_KEYWORD KEYWORD_ELSE")
            case False
            with True a1 p1 p2 show ?thesis by (subst parse_conditional.simps) simp
          next
            case el: True
            show ?thesis
            proof (cases "advance c3")
              case (Inl e)
              with True a1 p1 p2 el show ?thesis
                by (subst parse_conditional.simps) (auto dest: parse_ok_advance)
            next
              case a2: (Inr c4)
              have ih3: "parse_ok (parse_conditional c4)"
                using "1"(3) [OF True a1 p1 refl p2 refl el a2] .
              from True a1 p1 p2 el a2 ih1 ih2 ih3 show ?thesis
                by (subst parse_conditional.simps) (auto split: sum.splits)
            qed
          qed
        qed
      qed
    qed
  qed
next
  case (2 min_prec ctx)
  then show ?case
    by (subst parse_binary.simps) (auto split: sum.splits)
next
  case (3 min_prec left ctx)
  show ?case
  proof
    assume wl: "expr_wellformed left"
    show "parse_ok (parse_binary_rest min_prec left ctx)"
    proof (cases "\<exists>op prec. type (current ctx) = TOKEN_OPERATOR op \<and>
        binary_precedence op = Some prec \<and> min_prec \<le> prec")
      case False
      then have "parse_binary_rest min_prec left ctx = Inr (left, ctx)"
        by (subst parse_binary_rest.simps) (auto split: token_type.splits option.splits)
      with wl show ?thesis by simp
    next
      case True
      then obtain op prec where t: "type (current ctx) = TOKEN_OPERATOR op"
        and bp: "binary_precedence op = Some prec" and le: "min_prec \<le> prec" by blast
      show ?thesis
      proof (cases "advance ctx")
        case (Inl e)
        with t bp le show ?thesis
          by (subst parse_binary_rest.simps) (auto dest: parse_ok_advance)
      next
        case a: (Inr c1)
        have ih1: "parse_ok (parse_binary (prec + 1) c1)" using "3"(1) [OF t bp le a] .
        show ?thesis
        proof (cases "parse_binary (prec + 1) c1")
          case (Inl e)
          with t bp le a ih1 show ?thesis by (subst parse_binary_rest.simps) simp
        next
          case (Inr r)
          then obtain right c2 where pb: "parse_binary (prec + 1) c1 = Inr (right, c2)"
            by (cases r) simp
          with ih1 have wr: "expr_wellformed right" by simp
          have "parse_ok (parse_binary_rest min_prec (EXPR_BINARY op left right) c2)"
            using "3"(2) [OF t bp le a pb refl] wl wr bp by simp
          with t bp le a pb show ?thesis by (subst parse_binary_rest.simps) simp
        qed
      qed
    qed
  qed
next
  case (4 ctx)
  show ?case
  proof (cases "\<exists>op. type (current ctx) = TOKEN_OPERATOR op \<and> is_unary_operator op")
    case True
    then obtain op where t: "type (current ctx) = TOKEN_OPERATOR op" and u: "is_unary_operator op"
      by blast
    show ?thesis
    proof (cases "advance ctx")
      case (Inl e)
      with t u show ?thesis by (subst parse_unary.simps) (auto dest: parse_ok_advance)
    next
      case a: (Inr c1)
      have "parse_ok (parse_unary c1)" using "4"(2) [OF t u a] .
      with t u a show ?thesis
        by (subst parse_unary.simps) (auto split: sum.splits)
    qed
  next
    case False
    then have eq: "parse_unary ctx = parse_primary ctx"
      by (subst parse_unary.simps) (auto split: token_type.splits)
    from False "4"(1,3,4,5,6) have "parse_ok (parse_primary ctx)"
      by (cases "type (current ctx)") auto
    with eq show ?thesis by simp
  qed
next
  case (5 ctx)
  show ?case
  proof (cases "type (current ctx) = TOKEN_OPERATOR OP_OPEN_PAREN")
    case False
    then show ?thesis
      by (subst parse_primary.simps)
         (auto split: token_type.splits sum.splits dest: parse_ok_advance)
  next
    case True
    show ?thesis
    proof (cases "advance ctx")
      case (Inl e)
      with True show ?thesis by (subst parse_primary.simps) (auto dest: parse_ok_advance)
    next
      case a: (Inr c1)
      have "parse_ok (parse_conditional c1)" using "5" [OF True refl a] .
      with True a show ?thesis
        by (subst parse_primary.simps) (auto split: sum.splits dest: parse_ok_advance)
    qed
  qed
qed

lemma parse_expr_ok: "parse_ok (parse_expr ctx)"
  using parse_wellformed(1) by (auto simp: parse_expr_def split: sum.splits dest: parse_ok_advance)


lemma wellformed_type_valid: "expr_wellformed e \<Longrightarrow> expr_type_valid e"
  by (induction e) simp_all

lemma is_letter_or_digit_not_newline: "is_letter c \<or> is_digit c \<Longrightarrow> c \<noteq> CHR 0x0A"
  by (auto simp: is_letter_def is_digit_def)

lemma scan_name_no_newline:
  assumes "scan ctx = Inr (token, ctx')"
  shows "CHR 0x0A \<notin> set (v_name token)"
proof -
  let ?lexeme = "dropWhile is_space (drop (pos ctx) (source ctx))"
  have w: "CHR 0x0A \<notin> set (takeWhile (\<lambda>x. is_letter x \<or> is_digit x) ?lexeme)"
    using is_letter_or_digit_not_newline by (auto dest: set_takeWhileD)
  from assms w show ?thesis
    by (auto simp: scan_def Let_def make_token_def
        split: list.splits if_splits option.splits prod.splits)
qed

lemma scan_eof_fixed:
  assumes "scan ctx = Inr (token, ctx')" and "type token = TOKEN_EOF"
  shows "scan ctx' = Inr (token, ctx')"
proof -
  let ?rest = "drop (pos ctx) (source ctx)"
  have lex: "dropWhile is_space ?rest = []"
    using assms
    by (auto simp: scan_def Let_def make_token_def split: list.splits if_splits option.splits prod.splits)
  have "Inr (token, ctx') = Inr (make_token TOKEN_EOF,
      ctx\<lparr>pos := pos ctx + length (takeWhile is_space ?rest),
        line := line ctx + length (filter (\<lambda>c. c = CHR 0x0A) (takeWhile is_space ?rest))\<rparr>)"
    using assms(1) unfolding scan_def Let_def lex by simp
  then have tok: "token = make_token TOKEN_EOF"
    and c': "ctx' = ctx\<lparr>pos := pos ctx + length (takeWhile is_space ?rest),
        line := line ctx + length (filter (\<lambda>c. c = CHR 0x0A) (takeWhile is_space ?rest))\<rparr>"
    by simp_all
  have "length (takeWhile is_space ?rest) + length (dropWhile is_space ?rest) = length ?rest"
    by (rule take_drop_while_length)
  moreover have "length (dropWhile is_space ?rest) = 0" by (simp only: lex list.size)
  ultimately have "length (takeWhile is_space ?rest) = length ?rest" by linarith
  then have "length (takeWhile is_space ?rest) = length (source ctx) - pos ctx" by simp
  then have "drop (pos ctx') (source ctx') = []" by (simp add: c')
  then show ?thesis by (simp add: scan_def Let_def tok)
qed

text \<open>How the stages of the driver end, for every choice of the functions of
  \<^verbatim>\<open>compiler.h\<close>.\<close>

lemma parse_main_status:
  "snd (parse_main S ctx) =
     (if expr_type_valid (fst (c_parse_expr S ctx)) then None else Some AssertionFailed)"
  by (cases "c_parse_expr S ctx") (simp add: parse_main_def print_expr_status)


lemma scan_main_status:
  assumes "scan_main S ctx = Some r"
  shows "snd r = None"
  using assms
proof (rule scan_main.raw_induct [rotated], goal_cases)
  case (1 scan_main' S ctx r)
  obtain token ctx' where sc: "c_scan S ctx = (token, ctx')" by (cases "c_scan S ctx")
  show ?case
  proof (cases "type token = TOKEN_EOF")
    case True
    with 1(2) sc show ?thesis by (auto simp: printf_def)
  next
    case False
    then have "snd (print_token token) = None" by (simp add: print_token_status)
    then obtain out where pt: "print_token token = (out, None)"
      by (cases "print_token token") simp
    from 1(2) sc False pt obtain rest where
      rest: "scan_main' S ctx' = Some rest" and r: "r = and_then (printf out) rest"
      by (auto simp: bind_eq_Some_conv)
    from 1(1) rest have "snd rest = None" by blast
    with r show ?thesis by (cases rest) simp
  qed
qed

lemma scan_main_returns:
  assumes progress: "\<And>c t c'. c_scan S c = (t, c') \<Longrightarrow> type t \<noteq> TOKEN_EOF \<Longrightarrow>
      length (source c') - pos c' < length (source c) - pos c"
  shows "\<exists>out. scan_main S ctx = Some (out, None)"
proof (induction ctx rule: measure_induct_rule [of "\<lambda>c. length (source c) - pos c"])
  case (less ctx)
  obtain token ctx' where sc: "c_scan S ctx = (token, ctx')" by (cases "c_scan S ctx")
  show ?case
  proof (cases "type token = TOKEN_EOF")
    case True
    with sc show ?thesis by (subst scan_main.simps) (simp add: printf_def)
  next
    case False
    then have "snd (print_token token) = None" by (simp add: print_token_status)
    then obtain out where pt: "print_token token = (out, None)"
      by (cases "print_token token") simp
    from less [OF progress [OF sc False]] obtain rest where
      "scan_main S ctx' = Some (rest, None)" by blast
    with sc False pt show ?thesis by (subst scan_main.simps) (simp add: printf_def)
  qed
qed

text \<open>The lexer among the stage functions of the specification returns the tokens of
  \<^verbatim>\<open>scan\<close>, up to the end of the input.\<close>

lemma spec_stages_scan:
  "c_scan (spec_stages files) c = (t, c') \<Longrightarrow> type t \<noteq> TOKEN_EOF \<Longrightarrow> scan c = Inr (t, c')"
  by (cases "scan c") (auto simp: spec_stages_def returned_def make_token_def)

text \<open>The equations that evaluate the lexer and the parser on a given text.\<close>

lemmas lex_defs = scan_def Let_def is_space_def is_letter_def is_digit_def match_operator_def
  operator_symbols_def make_token_def number_of_def reserved_words_def initial_context_def

lemmas parse_simps = parse_conditional.simps parse_binary.simps parse_binary_rest.simps
  parse_unary.simps parse_primary.simps parse_expr_def advance_def

section \<open>Claims about the lexer\<close>

text \<open>
  C4. End of input is idempotent and never fails: once the lexer has returned
  \<^verbatim>\<open>TOKEN_EOF\<close> and left the context \<open>ctx'\<close>, a further call on \<open>ctx'\<close>
  returns the same \<^verbatim>\<open>TOKEN_EOF\<close> token and leaves \<open>ctx'\<close> as it is, so every
  one of any number of further calls returns \<^verbatim>\<open>TOKEN_EOF\<close> and none returns an
  error.
\<close>

theorem scan_eof_idempotent:
  assumes "scan ctx = Inr (token, ctx')" and "type token = TOKEN_EOF"
  shows "scan ctx' = Inr (token, ctx') \<and> scan_repeatedly n ctx' = replicate n (Inr token)"
proof
  show fixed: "scan ctx' = Inr (token, ctx')" using assms by (rule scan_eof_fixed)
  show "scan_repeatedly n ctx' = replicate n (Inr token)"
    by (induction n) (simp_all add: fixed)
qed

theorem scan_eof_idempotent_witness:
  "scan (initial_context ''7 '') = Inr ((make_token TOKEN_INTEGER)\<lparr>v_i := 7\<rparr>, (initial_context ''7 '')\<lparr>pos := 1\<rparr>) \<and>
   scan ((initial_context ''7 '')\<lparr>pos := 1\<rparr>) = Inr (make_token TOKEN_EOF, (initial_context ''7 '')\<lparr>pos := 2\<rparr>) \<and>
   type (make_token TOKEN_EOF) = TOKEN_EOF \<and>
   scan_repeatedly 3 ((initial_context ''7 '')\<lparr>pos := 2\<rparr>) =
     [Inr (make_token TOKEN_EOF), Inr (make_token TOKEN_EOF), Inr (make_token TOKEN_EOF)]"
proof -
  have s1: "scan (initial_context ''7 '') = Inr ((make_token TOKEN_INTEGER)\<lparr>v_i := 7\<rparr>, (initial_context ''7 '')\<lparr>pos := 1\<rparr>)"
    by (simp add: lex_defs)
  have s2: "scan ((initial_context ''7 '')\<lparr>pos := 1\<rparr>) = Inr (make_token TOKEN_EOF, (initial_context ''7 '')\<lparr>pos := 2\<rparr>)"
    by (simp add: lex_defs)
  have t: "type (make_token TOKEN_EOF) = TOKEN_EOF" by (simp add: make_token_def)
  have "replicate 3 (Inr (make_token TOKEN_EOF) :: error + token_t) = 
     [Inr (make_token TOKEN_EOF), Inr (make_token TOKEN_EOF), Inr (make_token TOKEN_EOF)]"
    by (simp add: numeral_3_eq_3)
  with scan_eof_idempotent [OF s2 t, of 3] s1 s2 t show ?thesis by simp
qed


section \<open>Claims about the tree printer\<close>

text \<open>
  C10. \<^verbatim>\<open>print_expr\<close> terminates on every expression tree, at any indent: the
  relation between a call and the calls it makes is well-founded, because every call it
  makes is on a child of its node (a strictly smaller tree), one level deeper.
\<close>

theorem print_expr_terminates:
  "wf {(callee, caller). print_expr_calls caller callee} \<and>
   (\<forall>e indent e' indent'. print_expr_calls (e, indent) (e', indent') \<longrightarrow>
      e' \<in> set (expr_children e) \<and> size e' < size e \<and> indent' = indent + 1)"
proof
  have "{(callee, caller). print_expr_calls caller callee} \<subseteq> measure (\<lambda>x. size (fst x))"
    by (auto elim: print_expr_calls.cases)
  then show "wf {(callee, caller). print_expr_calls caller callee}"
    by (rule wf_subset [OF wf_measure])
  show "\<forall>e indent e' indent'. print_expr_calls (e, indent) (e', indent') \<longrightarrow>
      e' \<in> set (expr_children e) \<and> size e' < size e \<and> indent' = indent + 1"
    by (auto elim: print_expr_calls.cases)
qed

theorem print_expr_terminates_witness:
  "print_expr_calls (EXPR_UNARY OP_MINUS (EXPR_INTEGER 7), 0) (EXPR_INTEGER 7, 0 + 1) \<and>
   EXPR_INTEGER 7 \<in> set (expr_children (EXPR_UNARY OP_MINUS (EXPR_INTEGER 7))) \<and>
   size (EXPR_INTEGER 7) < size (EXPR_UNARY OP_MINUS (EXPR_INTEGER 7)) \<and>
   \<not> print_expr_calls (EXPR_INTEGER 7, 1) (EXPR_INTEGER 7, 1)"
proof -
  have c: "print_expr_calls (EXPR_UNARY OP_MINUS (EXPR_INTEGER 7), 0) (EXPR_INTEGER 7, 0 + 1)"
    by (rule print_expr_calls.intros)
  have w: "wf {(callee, caller). print_expr_calls caller callee}"
    using print_expr_terminates by (rule conjunct1)
  have "((EXPR_INTEGER 7, 1), (EXPR_INTEGER 7, 1)) \<notin> {(callee, caller). print_expr_calls caller callee}"
    using w by (rule wf_not_refl)
  then have n: "\<not> print_expr_calls (EXPR_INTEGER 7, 1) (EXPR_INTEGER 7, 1)" by simp
  from print_expr_terminates c n show ?thesis by blast
qed

text \<open>
  C6. For every expression tree whose nodes are all of the four variants,
  \<^verbatim>\<open>print_expr\<close> called at depth \<open>d\<close> prints the pre-order dump of the tree,
  one node per line, as long as the depth of the deepest node, \<open>d\<close> plus the height of
  the tree, is at most \<^verbatim>\<open>INT_MAX\<close>: the line of a node at depth \<open>k\<close> is \<open>k\<close>
  copies of two spaces, the node's label (the decimal value of an integer,
  \<^verbatim>\<open>if\<close>, or the operator's name) and a newline; the children follow at depth
  \<open>k + 1\<close>, left to right (the condition, the consequent and the alternative of a
  conditional). The output has as many lines as the tree has nodes, and the call returns
  normally.
\<close>

theorem print_expr_preorder_dump:
  assumes "expr_type_valid e" and "d + expr_height e < 2 ^ 31"
  shows "print_expr e (of_nat d) = (concat (map dump_line (dump d e)), None) \<and>
         length (dump d e) = expr_nodes e \<and>
         length (filter (\<lambda>c. c = CHR 0x0A) (fst (print_expr e (of_nat d)))) = expr_nodes e"
proof -
  have p: "print_expr e (of_nat d) = (concat (map dump_line (dump d e)), None)"
    using print_expr_dump [OF assms] by (simp add: printf_def)
  have n: "length (dump d e) = expr_nodes e" using assms(1) by (rule dump_length)
  have "\<forall>x\<in>set (dump d e). CHR 0x0A \<notin> set (snd x)"
    using dump_labels by fastforce
  then have "length (filter (\<lambda>c. c = CHR 0x0A) (concat (map dump_line (dump d e)))) = length (dump d e)"
    by (rule newlines_dump_lines)
  with p n show ?thesis by simp
qed

theorem print_expr_preorder_dump_witness:
  "expr_type_valid (EXPR_BINARY OP_PLUS (EXPR_INTEGER 1)
      (EXPR_IF (EXPR_INTEGER 0) (EXPR_UNARY OP_MINUS (EXPR_INTEGER 2)) (EXPR_INTEGER 3))) \<and>
   0 + expr_height (EXPR_BINARY OP_PLUS (EXPR_INTEGER 1)
      (EXPR_IF (EXPR_INTEGER 0) (EXPR_UNARY OP_MINUS (EXPR_INTEGER 2)) (EXPR_INTEGER 3))) = 3 \<and>
   print_expr (EXPR_BINARY OP_PLUS (EXPR_INTEGER 1)
      (EXPR_IF (EXPR_INTEGER 0) (EXPR_UNARY OP_MINUS (EXPR_INTEGER 2)) (EXPR_INTEGER 3))) 0 =
     (''+\<newline>  1\<newline>  if\<newline>    0\<newline>    -\<newline>      2\<newline>    3\<newline>'', None)"
proof -
  have v: "expr_type_valid (EXPR_BINARY OP_PLUS (EXPR_INTEGER 1)
      (EXPR_IF (EXPR_INTEGER 0) (EXPR_UNARY OP_MINUS (EXPR_INTEGER 2)) (EXPR_INTEGER 3)))"
    by simp
  have h: "0 + expr_height (EXPR_BINARY OP_PLUS (EXPR_INTEGER 1)
      (EXPR_IF (EXPR_INTEGER 0) (EXPR_UNARY OP_MINUS (EXPR_INTEGER 2)) (EXPR_INTEGER 3))) < 2 ^ 31"
    by simp
  from print_expr_preorder_dump [OF v h] v show ?thesis
    by (simp add: dump_line_def decimal_def decimal_nat.simps)
qed

text \<open>
  Without the bound the dump is not what is printed. \<^verbatim>\<open>indent\<close> is an
  \<^verbatim>\<open>int\<close>: called at \<^verbatim>\<open>INT_MAX\<close> on the negation of 1, \<^verbatim>\<open>print_expr\<close>
  prints the operand, a node at depth \<open>2 ^ 31\<close>, with no indent, and its output is
  4294967298 characters long where the dump has 8589934594. The same happens to the leaf
  of a literal under \<open>2 ^ 31\<close> negations that is printed from depth 0, as
  \<^verbatim>\<open>parse_main\<close> prints a tree.
\<close>

theorem print_expr_indent_wraps:
  "fst (print_expr (EXPR_UNARY OP_MINUS (EXPR_INTEGER 1)) 2147483647) =
     concat (replicate 2147483647 ''  '') @ ''-\<newline>1\<newline>'' \<and>
   concat (map dump_line (dump 2147483647 (EXPR_UNARY OP_MINUS (EXPR_INTEGER 1)))) =
     concat (replicate 2147483647 ''  '') @ ''-\<newline>'' @
     concat (replicate 2147483648 ''  '') @ ''1\<newline>'' \<and>
   length (fst (print_expr (EXPR_UNARY OP_MINUS (EXPR_INTEGER 1)) 2147483647)) = 4294967298 \<and>
   length (concat (map dump_line (dump 2147483647 (EXPR_UNARY OP_MINUS (EXPR_INTEGER 1))))) =
     8589934594 \<and>
   print_expr (EXPR_UNARY OP_MINUS (EXPR_INTEGER 1)) 2147483647 \<noteq>
     (concat (map dump_line (dump 2147483647 (EXPR_UNARY OP_MINUS (EXPR_INTEGER 1)))), None) \<and>
   length (fst (print_expr (negations 2147483648) 0)) + 4294967296 =
     length (concat (map dump_line (dump 0 (negations 2147483648)))) \<and>
   print_expr (negations 2147483648) 0 \<noteq>
     (concat (map dump_line (dump 0 (negations 2147483648))), None)"
proof -
  let ?e = "EXPR_UNARY OP_MINUS (EXPR_INTEGER 1)"
  have p: "fst (print_expr ?e 2147483647) = concat (replicate 2147483647 ''  '') @ ''-\<newline>1\<newline>''"
    by (simp add: print_indent_def PRId64_def decimal_def decimal_nat.simps printf_def)
  have d: "concat (map dump_line (dump 2147483647 ?e)) =
     concat (replicate 2147483647 ''  '') @ ''-\<newline>'' @
     concat (replicate 2147483648 ''  '') @ ''1\<newline>''"
    by (simp add: dump_line_def decimal_def decimal_nat.simps)
  have lp: "length (fst (print_expr ?e 2147483647)) = 4294967298"
    by (simp only: p length_append length_indent) simp
  have ld: "length (concat (map dump_line (dump 2147483647 ?e))) = 8589934594"
    by (simp only: d length_append length_indent) simp
  have ne: "print_expr ?e 2147483647 \<noteq> (concat (map dump_line (dump 2147483647 ?e)), None)"
  proof
    assume "print_expr ?e 2147483647 = (concat (map dump_line (dump 2147483647 ?e)), None)"
    then have "fst (print_expr ?e 2147483647) = concat (map dump_line (dump 2147483647 ?e))"
      by (simp only: fst_conv)
    then have "length (fst (print_expr ?e 2147483647)) =
        length (concat (map dump_line (dump 2147483647 ?e)))"
      by (simp only:)
    with lp ld show False by linarith
  qed
  have ln: "length (fst (print_expr (negations 2147483648) 0)) + 4294967296 =
     length (concat (map dump_line (dump 0 (negations 2147483648))))"
    using negations_lengths [of 0 2147483648] by simp
  have nn: "print_expr (negations 2147483648) 0 \<noteq>
     (concat (map dump_line (dump 0 (negations 2147483648))), None)"
  proof
    assume "print_expr (negations 2147483648) 0 =
       (concat (map dump_line (dump 0 (negations 2147483648))), None)"
    then have "fst (print_expr (negations 2147483648) 0) =
       concat (map dump_line (dump 0 (negations 2147483648)))"
      by (simp only: fst_conv)
    then have "length (fst (print_expr (negations 2147483648) 0)) =
       length (concat (map dump_line (dump 0 (negations 2147483648))))"
      by (simp only:)
    with ln show False by linarith
  qed
  from p d lp ld ne ln nn show ?thesis by (intro conjI)
qed

section \<open>Claims about the token printer\<close>

text \<open>
  C5. Every token other than \<^verbatim>\<open>TOKEN_EOF\<close> belongs to one of the four families,
  and the token printer renders it by its family: \<^verbatim>\<open>keyword\<close> and the keyword's
  name, \<^verbatim>\<open>operator\<close> and the operator's name, \<^verbatim>\<open>integer\<close> and the signed
  64-bit value in decimal, or \<^verbatim>\<open>identifier\<close> and the name; each followed by a
  newline. The rendering is a function of the token alone, and it is exactly one line
  whenever the token's name holds no newline (the names of keywords and operators and
  the decimal digits never do, nor does the name of a token that the lexer returned).
\<close>

theorem print_token_line:
  assumes "type token \<noteq> TOKEN_EOF"
  shows "(token_type_is_keyword (type token) \<or> token_type_is_operator (type token) \<or>
          type token = TOKEN_INTEGER \<or> type token = TOKEN_IDENT) \<and>
         (token_type_is_keyword (type token) \<longrightarrow>
            print_token token =
              (''keyword '' @ token_type_keyword_name (type token) @ ''\<newline>'', None)) \<and>
         (token_type_is_operator (type token) \<longrightarrow>
            print_token token =
              (''operator '' @ token_type_operator_name (type token) @ ''\<newline>'', None)) \<and>
         (type token = TOKEN_INTEGER \<longrightarrow>
            print_token token = (''integer '' @ decimal (sint (v_i token)) @ ''\<newline>'', None)) \<and>
         (type token = TOKEN_IDENT \<longrightarrow>
            print_token token = (''identifier '' @ v_name token @ ''\<newline>'', None)) \<and>
         (CHR 0x0A \<notin> set (v_name token) \<longrightarrow>
            (\<exists>l. print_token token = (l @ ''\<newline>'', None) \<and> CHR 0x0A \<notin> set l)) \<and>
         (\<forall>ctx ctx'. scan ctx = Inr (token, ctx') \<longrightarrow> CHR 0x0A \<notin> set (v_name token))"
proof (cases "type token")
  case (TOKEN_KEYWORD k)
  then show ?thesis
    using keyword_name_no_newline [of "type token"] scan_name_no_newline [of _ token]
    by (simp add: print_token_def printf_def)
next
  case (TOKEN_OPERATOR op)
  then show ?thesis
    using operator_name_no_newline [of "type token"] scan_name_no_newline [of _ token]
    by (simp add: print_token_def printf_def)
next
  case TOKEN_INTEGER
  then show ?thesis
    using decimal_no_newline [of "sint (v_i token)"] scan_name_no_newline [of _ token]
    by (simp add: print_token_def printf_def PRId64_def)
next
  case TOKEN_IDENT
  then show ?thesis
    using scan_name_no_newline [of _ token] by (simp add: print_token_def printf_def)
next
  case TOKEN_EOF
  with assms show ?thesis by simp
qed

theorem print_token_line_witness:
  "type \<lparr>type = TOKEN_INTEGER, v_i = - 42, v_name = []\<rparr> \<noteq> TOKEN_EOF \<and>
   print_token \<lparr>type = TOKEN_INTEGER, v_i = - 42, v_name = []\<rparr> = (''integer -42\<newline>'', None) \<and>
   type \<lparr>type = TOKEN_IDENT, v_i = 0, v_name = ''x1''\<rparr> \<noteq> TOKEN_EOF \<and>
   CHR 0x0A \<notin> set (v_name \<lparr>type = TOKEN_IDENT, v_i = 0, v_name = ''x1''\<rparr>) \<and>
   scan (initial_context ''x1'') =
     Inr (\<lparr>type = TOKEN_IDENT, v_i = 0, v_name = ''x1''\<rparr>, (initial_context ''x1'')\<lparr>pos := 2\<rparr>) \<and>
   print_token \<lparr>type = TOKEN_IDENT, v_i = 0, v_name = ''x1''\<rparr> = (''identifier x1\<newline>'', None) \<and>
   type (make_token (TOKEN_KEYWORD KEYWORD_IF)) \<noteq> TOKEN_EOF \<and>
   token_type_is_keyword (type (make_token (TOKEN_KEYWORD KEYWORD_IF))) \<and>
   print_token (make_token (TOKEN_KEYWORD KEYWORD_IF)) = (''keyword if\<newline>'', None) \<and>
   type (make_token (TOKEN_OPERATOR OP_LESS_EQUAL)) \<noteq> TOKEN_EOF \<and>
   token_type_is_operator (type (make_token (TOKEN_OPERATOR OP_LESS_EQUAL))) \<and>
   print_token (make_token (TOKEN_OPERATOR OP_LESS_EQUAL)) = (''operator <=\<newline>'', None)"
proof -
  have a: "type \<lparr>type = TOKEN_INTEGER, v_i = - 42, v_name = []\<rparr> \<noteq> TOKEN_EOF" by simp
  have b: "type \<lparr>type = TOKEN_IDENT, v_i = 0, v_name = ''x1''\<rparr> \<noteq> TOKEN_EOF" by simp
  have c: "type (make_token (TOKEN_KEYWORD KEYWORD_IF)) \<noteq> TOKEN_EOF"
    by (simp add: make_token_def)
  have d: "type (make_token (TOKEN_OPERATOR OP_LESS_EQUAL)) \<noteq> TOKEN_EOF"
    by (simp add: make_token_def)
  have s: "scan (initial_context ''x1'') =
     Inr (\<lparr>type = TOKEN_IDENT, v_i = 0, v_name = ''x1''\<rparr>, (initial_context ''x1'')\<lparr>pos := 2\<rparr>)"
    by (simp add: lex_defs)
  from print_token_line [OF a] print_token_line [OF b] print_token_line [OF c]
    print_token_line [OF d] s
  show ?thesis
    by (simp add: decimal_def decimal_nat.simps make_token_def)
qed

text \<open>
  C8. The \<^verbatim>\<open>assert(false)\<close> arms of the driver are not reached: \<^verbatim>\<open>print_expr\<close>
  returns normally on every tree whose nodes are all of the four variants (and reaches
  its \<^verbatim>\<open>default\<close> arm on every other tree); every token whose type is not
  \<^verbatim>\<open>TOKEN_EOF\<close> is a keyword, an operator, \<^verbatim>\<open>TOKEN_INTEGER\<close> or
  \<^verbatim>\<open>TOKEN_IDENT\<close>, and the token printer returns normally on it; so
  \<^verbatim>\<open>scan_main\<close>, which leaves its loop at \<^verbatim>\<open>TOKEN_EOF\<close>, never fails its
  assertion, whatever lexer it is run with, and it ends, with every token printed, when
  every token that the lexer returns before \<^verbatim>\<open>TOKEN_EOF\<close> consumes input, as
  the tokens of the lexer of the specification do. Every
  tree that the parser of the specification returns has nodes of the four variants only;
  \<^verbatim>\<open>parse_main\<close> fails the assertion of \<^verbatim>\<open>print_expr\<close> exactly when the
  tree that \<^verbatim>\<open>parse_expr\<close> returned has a node of another type, so never on a tree
  of that parser.
\<close>

theorem assertions_unreachable:
  "(expr_type_valid e \<longrightarrow> snd (print_expr e indent) = None) \<and>
   (\<not> expr_type_valid e \<longrightarrow> snd (print_expr e indent) = Some AssertionFailed) \<and>
   (type token \<noteq> TOKEN_EOF \<longrightarrow>
      (token_type_is_keyword (type token) \<or> token_type_is_operator (type token) \<or>
       type token = TOKEN_INTEGER \<or> type token = TOKEN_IDENT) \<and>
      snd (print_token token) = None) \<and>
   (\<forall>t ctx'. scan ctx = Inr (t, ctx') \<and> type t \<noteq> TOKEN_EOF \<longrightarrow> snd (print_token t) = None) \<and>
   (\<forall>r. scan_main S ctx = Some r \<longrightarrow> snd r = None) \<and>
   ((\<forall>c t c'. c_scan S c = (t, c') \<and> type t \<noteq> TOKEN_EOF \<longrightarrow>
        length (source c') - pos c' < length (source c) - pos c) \<longrightarrow>
    (\<exists>out. scan_main S ctx = Some (out, None))) \<and>
   ((\<forall>c t c'. c_scan S c = (t, c') \<and> type t \<noteq> TOKEN_EOF \<longrightarrow> scan c = Inr (t, c')) \<longrightarrow>
    (\<exists>out. scan_main S ctx = Some (out, None))) \<and>
   (\<forall>tree ctx'. parse_expr ctx = Inr (tree, ctx') \<longrightarrow> expr_type_valid tree) \<and>
   snd (parse_main S ctx) =
     (if expr_type_valid (fst (c_parse_expr S ctx)) then None else Some AssertionFailed) \<and>
   (\<forall>ctx'. parse_expr ctx = Inr (fst (c_parse_expr S ctx), ctx') \<longrightarrow> snd (parse_main S ctx) = None)"
proof -
  have fam: "type token \<noteq> TOKEN_EOF \<longrightarrow>
      token_type_is_keyword (type token) \<or> token_type_is_operator (type token) \<or>
       type token = TOKEN_INTEGER \<or> type token = TOKEN_IDENT"
    by (cases "type token") simp_all
  have tree: "\<forall>tree ctx'. parse_expr ctx = Inr (tree, ctx') \<longrightarrow> expr_type_valid tree"
    using parse_expr_ok [of ctx] by (auto simp: wellformed_type_valid)
  have loop: "\<forall>r. scan_main S ctx = Some r \<longrightarrow> snd r = None"
    using scan_main_status by blast
  have ends: "(\<forall>c t c'. c_scan S c = (t, c') \<and> type t \<noteq> TOKEN_EOF \<longrightarrow>
        length (source c') - pos c' < length (source c) - pos c) \<longrightarrow>
    (\<exists>out. scan_main S ctx = Some (out, None))"
    using scan_main_returns [of S ctx] by blast
  have spec: "(\<forall>c t c'. c_scan S c = (t, c') \<and> type t \<noteq> TOKEN_EOF \<longrightarrow> scan c = Inr (t, c')) \<longrightarrow>
    (\<exists>out. scan_main S ctx = Some (out, None))"
  proof
    assume a: "\<forall>c t c'. c_scan S c = (t, c') \<and> type t \<noteq> TOKEN_EOF \<longrightarrow> scan c = Inr (t, c')"
    have "\<forall>c t c'. c_scan S c = (t, c') \<and> type t \<noteq> TOKEN_EOF \<longrightarrow>
        length (source c') - pos c' < length (source c) - pos c"
    proof (intro allI impI)
      fix c t c'
      assume b: "c_scan S c = (t, c') \<and> type t \<noteq> TOKEN_EOF"
      with a have "scan c = Inr (t, c')" by blast
      from scan_progress [OF this] b
      show "length (source c') - pos c' < length (source c) - pos c" by auto
    qed
    with ends show "\<exists>out. scan_main S ctx = Some (out, None)" by blast
  qed
  have pm: "snd (parse_main S ctx) =
     (if expr_type_valid (fst (c_parse_expr S ctx)) then None else Some AssertionFailed)"
    by (rule parse_main_status)
  from tree pm have ps: "\<forall>ctx'. parse_expr ctx = Inr (fst (c_parse_expr S ctx), ctx') \<longrightarrow>
      snd (parse_main S ctx) = None"
    by simp
  from fam tree loop ends spec pm ps show ?thesis
    using print_expr_status [of e indent] by (simp add: print_token_status)
qed


theorem assertions_unreachable_witness:
  "expr_type_valid (EXPR_UNARY OP_MINUS (EXPR_INTEGER 5)) \<and>
   snd (print_expr (EXPR_UNARY OP_MINUS (EXPR_INTEGER 5)) 0) = None \<and>
   \<not> expr_type_valid (EXPR_UNARY OP_MINUS (EXPR_OTHER 9)) \<and>
   snd (print_expr (EXPR_UNARY OP_MINUS (EXPR_OTHER 9)) 0) = Some AssertionFailed \<and>
   type (make_token (TOKEN_OPERATOR OP_PLUS)) \<noteq> TOKEN_EOF \<and>
   token_type_is_operator (type (make_token (TOKEN_OPERATOR OP_PLUS))) \<and>
   snd (print_token (make_token (TOKEN_OPERATOR OP_PLUS))) = None \<and>
   scan (initial_context ''+ 7'') =
     Inr (make_token (TOKEN_OPERATOR OP_PLUS), (initial_context ''+ 7'')\<lparr>pos := 1\<rparr>) \<and>
   scan_main (spec_stages Map.empty) (initial_context ''+ 7'') =
     Some (''operator +\<newline>integer 7\<newline>'', None) \<and>
   parse_expr (initial_context ''-5'') =
     Inr (EXPR_UNARY OP_MINUS (EXPR_INTEGER 5), (initial_context ''-5'')\<lparr>pos := 2\<rparr>) \<and>
   c_parse_expr (spec_stages Map.empty) (initial_context ''-5'') =
     (EXPR_UNARY OP_MINUS (EXPR_INTEGER 5), (initial_context ''-5'')\<lparr>pos := 2\<rparr>) \<and>
   snd (parse_main (spec_stages Map.empty) (initial_context ''-5'')) = None"
proof -
  let ?S = "spec_stages Map.empty"
  have p: "parse_expr (initial_context ''-5'') =
     Inr (EXPR_UNARY OP_MINUS (EXPR_INTEGER 5), (initial_context ''-5'')\<lparr>pos := 2\<rparr>)"
    by (simp add: parse_simps lex_defs)
  then have cp: "c_parse_expr ?S (initial_context ''-5'') =
     (EXPR_UNARY OP_MINUS (EXPR_INTEGER 5), (initial_context ''-5'')\<lparr>pos := 2\<rparr>)"
    by (simp only: spec_stages_def returned_def compiler_h.simps sum.case)
  have s: "scan (initial_context ''+ 7'') =
     Inr (make_token (TOKEN_OPERATOR OP_PLUS), (initial_context ''+ 7'')\<lparr>pos := 1\<rparr>)"
    by (simp add: lex_defs)
  have sm: "scan_main ?S (initial_context ''+ 7'') =
     Some (''operator +\<newline>integer 7\<newline>'', None)"
    apply (subst scan_main.simps)
    apply (simp add: spec_stages_def returned_def lex_defs print_token_def printf_def)
    apply (subst scan_main.simps)
    apply (simp add: spec_stages_def returned_def lex_defs print_token_def printf_def
        PRId64_def decimal_def decimal_nat.simps)
    apply (subst scan_main.simps)
    apply (simp add: spec_stages_def returned_def lex_defs print_token_def printf_def)
    done
  have progress: "\<forall>c t c'. c_scan ?S c = (t, c') \<and> type t \<noteq> TOKEN_EOF \<longrightarrow>
        length (source c') - pos c' < length (source c) - pos c"
  proof (intro allI impI)
    fix c t c'
    assume "c_scan ?S c = (t, c') \<and> type t \<noteq> TOKEN_EOF"
    then have "scan c = Inr (t, c')" and "type t \<noteq> TOKEN_EOF"
      by (auto dest: spec_stages_scan)
    from scan_progress [OF this(1)] this(2)
    show "length (source c') - pos c' < length (source c) - pos c" by auto
  qed
  note a = assertions_unreachable [where e = "EXPR_UNARY OP_MINUS (EXPR_INTEGER 5)"
      and indent = 0 and token = "make_token (TOKEN_OPERATOR OP_PLUS)"
      and ctx = "initial_context ''+ 7''" and S = ?S]
  note b = assertions_unreachable [where e = "EXPR_UNARY OP_MINUS (EXPR_OTHER 9)"
      and indent = 0 and token = "make_token (TOKEN_OPERATOR OP_PLUS)"
      and ctx = "initial_context ''-5''" and S = ?S]
  from a have e1: "snd (print_expr (EXPR_UNARY OP_MINUS (EXPR_INTEGER 5)) 0) = None" by simp
  from b have e2: "snd (print_expr (EXPR_UNARY OP_MINUS (EXPR_OTHER 9)) 0) = Some AssertionFailed"
    by simp
  from a have t1: "token_type_is_operator (type (make_token (TOKEN_OPERATOR OP_PLUS))) \<and>
      snd (print_token (make_token (TOKEN_OPERATOR OP_PLUS))) = None"
    by (simp add: make_token_def)
  have agrees: "\<forall>c t c'. c_scan ?S c = (t, c') \<and> type t \<noteq> TOKEN_EOF \<longrightarrow> scan c = Inr (t, c')"
    by (auto dest: spec_stages_scan)
  from a progress agrees have "\<exists>out. scan_main ?S (initial_context ''+ 7'') = Some (out, None)"
    by blast
  from b have "parse_expr (initial_context ''-5'') =
      Inr (fst (c_parse_expr ?S (initial_context ''-5'')), (initial_context ''-5'')\<lparr>pos := 2\<rparr>) \<longrightarrow>
      snd (parse_main ?S (initial_context ''-5'')) = None"
    by blast
  with p cp have pm: "snd (parse_main ?S (initial_context ''-5'')) = None"
    by simp
  from e1 e2 t1 s sm p cp pm show ?thesis by (simp add: make_token_def)
qed

section \<open>Claims about the driver\<close>




text \<open>
  C7. main.c defines three demonstration modes (\<^verbatim>\<open>scan_main\<close> prints the tokens,
  \<^verbatim>\<open>parse_main\<close> prints the parsed tree, \<^verbatim>\<open>eval_main\<close> evaluates it), and
  \<^verbatim>\<open>main\<close> calls one of them, \<^verbatim>\<open>parse_main\<close>, once per invocation; the calls
  of the other two are commented out and nothing in the arguments selects a mode. A run
  does not depend on the lexer or on the evaluator that the other two modes would call;
  with exactly one argument the standard output is what \<^verbatim>\<open>print_expr\<close> prints at
  depth 0 for the tree that \<^verbatim>\<open>parse_expr\<close> returns; and when that tree has nodes of
  the four variants only (and a height within \<^verbatim>\<open>INT_MAX\<close>), the run prints the
  dump of the tree once, one line for each node, writes nothing to standard error
  and returns 0.
\<close>

theorem main_runs_tree_printer:
  "main (S\<lparr>c_scan := lexer, c_eval_expr := evaluator\<rparr>) argv = main S argv \<and>
   (length argv = 2 \<longrightarrow>
      stdout (main S argv) =
        fst (print_expr (fst (c_parse_expr S (c_scan_init S (argv ! 1)))) 0)) \<and>
   (length argv = 2 \<and> expr_type_valid (fst (c_parse_expr S (c_scan_init S (argv ! 1)))) \<and>
    expr_height (fst (c_parse_expr S (c_scan_init S (argv ! 1)))) < 2 ^ 31 \<longrightarrow>
      main S argv =
        Returned (concat (map dump_line (dump 0 (fst (c_parse_expr S (c_scan_init S (argv ! 1)))))))
          [] 0 \<and>
      length (filter (\<lambda>c. c = CHR 0x0A) (stdout (main S argv))) =
        expr_nodes (fst (c_parse_expr S (c_scan_init S (argv ! 1)))))"
proof -
  let ?ctx = "c_scan_init S (argv ! 1)"
  obtain tree ctx' where t: "c_parse_expr S ?ctx = (tree, ctx')" by (cases "c_parse_expr S ?ctx")
  have a: "main (S\<lparr>c_scan := lexer, c_eval_expr := evaluator\<rparr>) argv = main S argv"
    by (simp add: main_def parse_main_def)
  have b: "length argv = 2 \<longrightarrow> stdout (main S argv) = fst (print_expr tree 0)"
    using t by (cases "print_expr tree 0"; cases "snd (print_expr tree 0)")
      (simp_all add: main_def parse_main_def)
  have c: "length argv = 2 \<and> expr_type_valid tree \<and> expr_height tree < 2 ^ 31 \<longrightarrow>
      main S argv = Returned (concat (map dump_line (dump 0 tree))) [] 0 \<and>
      length (filter (\<lambda>c. c = CHR 0x0A) (stdout (main S argv))) = expr_nodes tree"
  proof (intro impI)
    assume h: "length argv = 2 \<and> expr_type_valid tree \<and> expr_height tree < 2 ^ 31"
    then have p: "print_expr tree 0 = (concat (map dump_line (dump 0 tree)), None)"
      using print_expr_dump [of tree 0] by (simp add: printf_def)
    have "\<forall>x\<in>set (dump 0 tree). CHR 0x0A \<notin> set (snd x)"
      using dump_labels by fastforce
    then have "length (filter (\<lambda>c. c = CHR 0x0A) (concat (map dump_line (dump 0 tree)))) =
        length (dump 0 tree)"
      by (rule newlines_dump_lines)
    with h have n: "length (filter (\<lambda>c. c = CHR 0x0A) (concat (map dump_line (dump 0 tree)))) =
        expr_nodes tree"
      by (simp add: dump_length)
    from h t p n show "main S argv = Returned (concat (map dump_line (dump 0 tree))) [] 0 \<and>
      length (filter (\<lambda>c. c = CHR 0x0A) (stdout (main S argv))) = expr_nodes tree"
      by (simp add: main_def parse_main_def)
  qed
  from a b c t show ?thesis by (simp only: fst_conv)
qed

theorem main_runs_tree_printer_witness:
  "length [''simplang'', ''a.sl''] = 2 \<and>
   fst (c_parse_expr (spec_stages [''a.sl'' \<mapsto> ''2 * -3''])
     (c_scan_init (spec_stages [''a.sl'' \<mapsto> ''2 * -3'']) ([''simplang'', ''a.sl''] ! 1))) =
     EXPR_BINARY OP_TIMES (EXPR_INTEGER 2) (EXPR_UNARY OP_MINUS (EXPR_INTEGER 3)) \<and>
   expr_type_valid (EXPR_BINARY OP_TIMES (EXPR_INTEGER 2) (EXPR_UNARY OP_MINUS (EXPR_INTEGER 3))) \<and>
   expr_height (EXPR_BINARY OP_TIMES (EXPR_INTEGER 2) (EXPR_UNARY OP_MINUS (EXPR_INTEGER 3))) = 2 \<and>
   main (spec_stages [''a.sl'' \<mapsto> ''2 * -3'']) [''simplang'', ''a.sl''] =
     Returned ''*\<newline>  2\<newline>  -\<newline>    3\<newline>'' [] 0 \<and>
   length (filter (\<lambda>c. c = CHR 0x0A)
     (stdout (main (spec_stages [''a.sl'' \<mapsto> ''2 * -3'']) [''simplang'', ''a.sl'']))) = 4 \<and>
   main ((spec_stages [''a.sl'' \<mapsto> ''2 * -3''])
      \<lparr>c_scan := \<lambda>ctx. (make_token TOKEN_EOF, ctx), c_eval_expr := \<lambda>expr. 7\<rparr>)
      [''simplang'', ''a.sl''] =
     Returned ''*\<newline>  2\<newline>  -\<newline>    3\<newline>'' [] 0"
proof -
  let ?S = "spec_stages [''a.sl'' \<mapsto> ''2 * -3'']"
  let ?argv = "[''simplang'', ''a.sl'']"
  let ?tree = "EXPR_BINARY OP_TIMES (EXPR_INTEGER 2) (EXPR_UNARY OP_MINUS (EXPR_INTEGER 3))"
  have i: "c_scan_init ?S (?argv ! 1) = initial_context ''2 * -3''"
    by (simp add: spec_stages_def returned_def scan_init_def)
  have "fst (returned (EXPR_INTEGER 0, initial_context ''2 * -3'')
      (parse_expr (initial_context ''2 * -3''))) = ?tree"
    by (simp add: returned_def parse_simps lex_defs)
  then have t: "fst (c_parse_expr ?S (c_scan_init ?S (?argv ! 1))) = ?tree"
    unfolding i by (simp only: spec_stages_def compiler_h.simps)
  have d: "concat (map dump_line (dump 0 ?tree)) = ''*\<newline>  2\<newline>  -\<newline>    3\<newline>''"
    by (simp add: dump_line_def decimal_def decimal_nat.simps numeral_2_eq_2)
  have v: "expr_type_valid ?tree" and h: "expr_height ?tree < 2 ^ 31" and n: "expr_nodes ?tree = 4"
    by simp_all
  note m = main_runs_tree_printer [where S = ?S and argv = ?argv
      and lexer = "\<lambda>ctx. (make_token TOKEN_EOF, ctx)" and evaluator = "\<lambda>expr. 7"]
  have l: "length ?argv = 2" and hh: "expr_height ?tree = 2" by simp_all
  from m [unfolded t] l v h have r: "main ?S ?argv =
      Returned (concat (map dump_line (dump 0 ?tree))) [] 0 \<and>
      length (filter (\<lambda>c. c = CHR 0x0A) (stdout (main ?S ?argv))) = expr_nodes ?tree"
    by blast
  from m have s: "main (?S\<lparr>c_scan := \<lambda>ctx. (make_token TOKEN_EOF, ctx), c_eval_expr := \<lambda>expr. 7\<rparr>) ?argv =
      main ?S ?argv"
    by (rule conjunct1)
  from r have r1: "main ?S ?argv = Returned ''*\<newline>  2\<newline>  -\<newline>    3\<newline>'' [] 0"
    unfolding d by (rule conjunct1)
  from r have r2: "length (filter (\<lambda>c. c = CHR 0x0A) (stdout (main ?S ?argv))) = 4"
    unfolding n by (rule conjunct2)
  from s r1 have s': "main (?S\<lparr>c_scan := \<lambda>ctx. (make_token TOKEN_EOF, ctx), c_eval_expr := \<lambda>expr. 7\<rparr>) ?argv =
      Returned ''*\<newline>  2\<newline>  -\<newline>    3\<newline>'' [] 0"
    by (rule trans)
  from l t v hh r1 r2 s' show ?thesis by (intro conjI)
qed

text \<open>
  No invocation prints the tokens or the value. Where every path names a file with the
  text \<^verbatim>\<open>1 + 2\<close>, \<^verbatim>\<open>scan_main\<close> would print three token lines and
  \<^verbatim>\<open>eval_main\<close> the line \<^verbatim>\<open>3\<close>; \<^verbatim>\<open>main\<close> prints the tree, and no list
  of arguments makes it print either of the other two.
\<close>

theorem main_selects_no_mode:
  "scan_main (spec_stages (\<lambda>path. Some ''1 + 2'')) (initial_context ''1 + 2'') =
     Some (''integer 1\<newline>operator +\<newline>integer 2\<newline>'', None) \<and>
   eval_main (spec_stages (\<lambda>path. Some ''1 + 2'')) (initial_context ''1 + 2'') =
     (''3\<newline>'', None) \<and>
   parse_main (spec_stages (\<lambda>path. Some ''1 + 2'')) (initial_context ''1 + 2'') =
     (''+\<newline>  1\<newline>  2\<newline>'', None) \<and>
   main (spec_stages (\<lambda>path. Some ''1 + 2'')) [''simplang'', ''a.sl''] =
     Returned ''+\<newline>  1\<newline>  2\<newline>'' [] 0 \<and>
   \<not> (\<exists>argv. stdout (main (spec_stages (\<lambda>path. Some ''1 + 2'')) argv) =
           ''integer 1\<newline>operator +\<newline>integer 2\<newline>'' \<or>
         stdout (main (spec_stages (\<lambda>path. Some ''1 + 2'')) argv) = ''3\<newline>'')"
proof -
  let ?S = "spec_stages (\<lambda>path. Some ''1 + 2'')"
  let ?ctx = "initial_context ''1 + 2''"
  let ?tree = "EXPR_BINARY OP_PLUS (EXPR_INTEGER 1) (EXPR_INTEGER 2)"
  have i: "\<And>path. c_scan_init ?S path = ?ctx"
    by (simp add: spec_stages_def returned_def scan_init_def)
  have "fst (returned (EXPR_INTEGER 0, ?ctx) (parse_expr ?ctx)) = ?tree"
    by (simp add: returned_def parse_simps lex_defs)
  then have t: "fst (c_parse_expr ?S ?ctx) = ?tree"
    by (simp only: spec_stages_def compiler_h.simps)
  have p: "print_expr ?tree 0 = (''+\<newline>  1\<newline>  2\<newline>'', None)"
    by (simp add: print_indent_def PRId64_def decimal_def decimal_nat.simps printf_def)
  have e: "c_eval_expr ?S ?tree = 3"
    by (simp add: spec_stages_def returned_def checked_def)
  have pm: "parse_main ?S ?ctx = (''+\<newline>  1\<newline>  2\<newline>'', None)"
    using t p by (cases "c_parse_expr ?S ?ctx") (simp add: parse_main_def)
  have em: "eval_main ?S ?ctx = (''3\<newline>'', None)"
    using t e by (cases "c_parse_expr ?S ?ctx")
      (simp add: eval_main_def PRId64_def decimal_def decimal_nat.simps printf_def)
  have sm: "scan_main ?S ?ctx = Some (''integer 1\<newline>operator +\<newline>integer 2\<newline>'', None)"
    apply (subst scan_main.simps)
    apply (simp add: spec_stages_def returned_def lex_defs print_token_def printf_def
        PRId64_def decimal_def decimal_nat.simps)
    apply (subst scan_main.simps)
    apply (simp add: spec_stages_def returned_def lex_defs print_token_def printf_def)
    apply (subst scan_main.simps)
    apply (simp add: spec_stages_def returned_def lex_defs print_token_def printf_def
        PRId64_def decimal_def decimal_nat.simps)
    apply (subst scan_main.simps)
    apply (simp add: spec_stages_def returned_def lex_defs print_token_def printf_def)
    done
  have out: "\<And>argv. stdout (main ?S argv) = [] \<or>
      stdout (main ?S argv) = ''+\<newline>  1\<newline>  2\<newline>''"
    by (simp add: main_def i pm)
  have no: "\<not> (\<exists>argv. stdout (main ?S argv) = ''integer 1\<newline>operator +\<newline>integer 2\<newline>'' \<or>
         stdout (main ?S argv) = ''3\<newline>'')"
  proof
    assume "\<exists>argv. stdout (main ?S argv) = ''integer 1\<newline>operator +\<newline>integer 2\<newline>'' \<or>
         stdout (main ?S argv) = ''3\<newline>''"
    then obtain argv where "stdout (main ?S argv) = ''integer 1\<newline>operator +\<newline>integer 2\<newline>'' \<or>
         stdout (main ?S argv) = ''3\<newline>''" ..
    with out [of argv] show False by auto
  qed
  have m: "main ?S [''simplang'', ''a.sl''] = Returned ''+\<newline>  1\<newline>  2\<newline>'' [] 0"
    by (simp add: main_def i pm)
  from sm em pm m no show ?thesis by (intro conjI)
qed



section \<open>Claims about the parser and the evaluator\<close>

text \<open>
  C1. Binary expressions respect precedence and associate to the left: the text
  \<^verbatim>\<open>1 + 2 * 3\<close> parses to the sum of 1 and the product of 2 and 3, which
  evaluates to 7; the text \<^verbatim>\<open>10 - 3 - 2\<close> parses to the difference of the
  difference of 10 and 3, and 2, which evaluates to 5.
\<close>

theorem precedence_and_associativity:
  "parse_expr (initial_context ''1 + 2 * 3'') =
     Inr (EXPR_BINARY OP_PLUS (EXPR_INTEGER 1)
            (EXPR_BINARY OP_TIMES (EXPR_INTEGER 2) (EXPR_INTEGER 3)),
          (initial_context ''1 + 2 * 3'')\<lparr>pos := 9\<rparr>) \<and>
   eval_expr (EXPR_BINARY OP_PLUS (EXPR_INTEGER 1)
            (EXPR_BINARY OP_TIMES (EXPR_INTEGER 2) (EXPR_INTEGER 3))) = Inr 7 \<and>
   parse_expr (initial_context ''10 - 3 - 2'') =
     Inr (EXPR_BINARY OP_MINUS (EXPR_BINARY OP_MINUS (EXPR_INTEGER 10) (EXPR_INTEGER 3))
            (EXPR_INTEGER 2),
          (initial_context ''10 - 3 - 2'')\<lparr>pos := 10\<rparr>) \<and>
   eval_expr (EXPR_BINARY OP_MINUS (EXPR_BINARY OP_MINUS (EXPR_INTEGER 10) (EXPR_INTEGER 3))
            (EXPR_INTEGER 2)) = Inr 5"
proof (intro conjI)
  show "parse_expr (initial_context ''1 + 2 * 3'') =
     Inr (EXPR_BINARY OP_PLUS (EXPR_INTEGER 1)
            (EXPR_BINARY OP_TIMES (EXPR_INTEGER 2) (EXPR_INTEGER 3)),
          (initial_context ''1 + 2 * 3'')\<lparr>pos := 9\<rparr>)"
    by (simp add: parse_simps lex_defs)
  show "eval_expr (EXPR_BINARY OP_PLUS (EXPR_INTEGER 1)
            (EXPR_BINARY OP_TIMES (EXPR_INTEGER 2) (EXPR_INTEGER 3))) = Inr 7"
    by (simp add: checked_def)
  show "parse_expr (initial_context ''10 - 3 - 2'') =
     Inr (EXPR_BINARY OP_MINUS (EXPR_BINARY OP_MINUS (EXPR_INTEGER 10) (EXPR_INTEGER 3))
            (EXPR_INTEGER 2),
          (initial_context ''10 - 3 - 2'')\<lparr>pos := 10\<rparr>)"
    by (simp add: parse_simps lex_defs)
  show "eval_expr (EXPR_BINARY OP_MINUS (EXPR_BINARY OP_MINUS (EXPR_INTEGER 10) (EXPR_INTEGER 3))
            (EXPR_INTEGER 2)) = Inr 5"
    by (simp add: checked_def)
qed

text \<open>
  C2. A conditional is evaluated by its condition first; a nonzero value selects the
  consequent and zero selects the alternative, and the result is that of the selected
  branch alone, whatever the other branch would do: with a nonzero condition and a
  division by zero as the alternative the result is the consequent's value (5), not
  \<^verbatim>\<open>DivisionByZero\<close>, and likewise with a zero condition and the division as the
  consequent. An error of the condition is the result. The two trees are those that
  the texts \<^verbatim>\<open>if (1) 5 else (1/0)\<close> and \<^verbatim>\<open>if (0) (1/0) else 5\<close> parse to.
\<close>

theorem conditional_short_circuit:
  "(\<forall>c. eval_expr condition = Inr c \<and> c \<noteq> 0 \<longrightarrow>
      eval_expr (EXPR_IF condition consequent alternative) = eval_expr consequent) \<and>
   (eval_expr condition = Inr 0 \<longrightarrow>
      eval_expr (EXPR_IF condition consequent alternative) = eval_expr alternative) \<and>
   (\<forall>e. eval_expr condition = Inl e \<longrightarrow>
      eval_expr (EXPR_IF condition consequent alternative) = Inl e) \<and>
   eval_expr (EXPR_BINARY OP_DIVIDE (EXPR_INTEGER 1) (EXPR_INTEGER 0)) =
     Inl (EvalError DivisionByZero) \<and>
   parse_expr (initial_context ''if (1) 5 else (1/0)'') =
     Inr (EXPR_IF (EXPR_INTEGER 1) (EXPR_INTEGER 5)
            (EXPR_BINARY OP_DIVIDE (EXPR_INTEGER 1) (EXPR_INTEGER 0)),
          (initial_context ''if (1) 5 else (1/0)'')\<lparr>pos := 19\<rparr>) \<and>
   eval_expr (EXPR_IF (EXPR_INTEGER 1) (EXPR_INTEGER 5)
     (EXPR_BINARY OP_DIVIDE (EXPR_INTEGER 1) (EXPR_INTEGER 0))) = Inr 5 \<and>
   parse_expr (initial_context ''if (0) (1/0) else 5'') =
     Inr (EXPR_IF (EXPR_INTEGER 0) (EXPR_BINARY OP_DIVIDE (EXPR_INTEGER 1) (EXPR_INTEGER 0))
            (EXPR_INTEGER 5),
          (initial_context ''if (0) (1/0) else 5'')\<lparr>pos := 19\<rparr>) \<and>
   eval_expr (EXPR_IF (EXPR_INTEGER 0)
     (EXPR_BINARY OP_DIVIDE (EXPR_INTEGER 1) (EXPR_INTEGER 0)) (EXPR_INTEGER 5)) = Inr 5"
proof -
  have "parse_expr (initial_context ''if (1) 5 else (1/0)'') =
     Inr (EXPR_IF (EXPR_INTEGER 1) (EXPR_INTEGER 5)
            (EXPR_BINARY OP_DIVIDE (EXPR_INTEGER 1) (EXPR_INTEGER 0)),
          (initial_context ''if (1) 5 else (1/0)'')\<lparr>pos := 19\<rparr>)"
    by (simp add: parse_simps lex_defs)
  moreover have "parse_expr (initial_context ''if (0) (1/0) else 5'') =
     Inr (EXPR_IF (EXPR_INTEGER 0) (EXPR_BINARY OP_DIVIDE (EXPR_INTEGER 1) (EXPR_INTEGER 0))
            (EXPR_INTEGER 5),
          (initial_context ''if (0) (1/0) else 5'')\<lparr>pos := 19\<rparr>)"
    by (simp add: parse_simps lex_defs)
  ultimately show ?thesis by simp
qed

theorem conditional_short_circuit_witness:
  "eval_expr (EXPR_INTEGER 1) = Inr 1 \<and> (1 :: int64_t) \<noteq> 0 \<and>
   eval_expr (EXPR_IF (EXPR_INTEGER 1) (EXPR_INTEGER 5)
     (EXPR_BINARY OP_DIVIDE (EXPR_INTEGER 1) (EXPR_INTEGER 0))) = eval_expr (EXPR_INTEGER 5) \<and>
   eval_expr (EXPR_INTEGER 0) = Inr 0 \<and>
   eval_expr (EXPR_IF (EXPR_INTEGER 0)
     (EXPR_BINARY OP_DIVIDE (EXPR_INTEGER 1) (EXPR_INTEGER 0)) (EXPR_INTEGER 5)) = eval_expr (EXPR_INTEGER 5) \<and>
   eval_expr (EXPR_BINARY OP_DIVIDE (EXPR_INTEGER 1) (EXPR_INTEGER 0)) = Inl (EvalError DivisionByZero) \<and>
   eval_expr (EXPR_IF (EXPR_BINARY OP_DIVIDE (EXPR_INTEGER 1) (EXPR_INTEGER 0))
     (EXPR_INTEGER 5) (EXPR_INTEGER 6)) = Inl (EvalError DivisionByZero)"
proof -
  have a: "eval_expr (EXPR_INTEGER 1) = Inr 1 \<and> (1 :: int64_t) \<noteq> 0" by simp
  have b: "eval_expr (EXPR_INTEGER 0) = Inr 0" by simp
  have c: "eval_expr (EXPR_BINARY OP_DIVIDE (EXPR_INTEGER 1) (EXPR_INTEGER 0)) =
      Inl (EvalError DivisionByZero)"
    by simp
  from conditional_short_circuit [of "EXPR_INTEGER 1" "EXPR_INTEGER 5"
      "EXPR_BINARY OP_DIVIDE (EXPR_INTEGER 1) (EXPR_INTEGER 0)"] a
  have 1: "eval_expr (EXPR_IF (EXPR_INTEGER 1) (EXPR_INTEGER 5)
     (EXPR_BINARY OP_DIVIDE (EXPR_INTEGER 1) (EXPR_INTEGER 0))) = eval_expr (EXPR_INTEGER 5)"
    by blast
  from conditional_short_circuit [of "EXPR_INTEGER 0"
      "EXPR_BINARY OP_DIVIDE (EXPR_INTEGER 1) (EXPR_INTEGER 0)" "EXPR_INTEGER 5"] b
  have 2: "eval_expr (EXPR_IF (EXPR_INTEGER 0)
     (EXPR_BINARY OP_DIVIDE (EXPR_INTEGER 1) (EXPR_INTEGER 0)) (EXPR_INTEGER 5)) = eval_expr (EXPR_INTEGER 5)"
    by blast
  from conditional_short_circuit [of "EXPR_BINARY OP_DIVIDE (EXPR_INTEGER 1) (EXPR_INTEGER 0)"
      "EXPR_INTEGER 5" "EXPR_INTEGER 6"] c
  have 3: "eval_expr (EXPR_IF (EXPR_BINARY OP_DIVIDE (EXPR_INTEGER 1) (EXPR_INTEGER 0))
     (EXPR_INTEGER 5) (EXPR_INTEGER 6)) = Inl (EvalError DivisionByZero)"
    by blast
  from a b c 1 2 3 show ?thesis by blast
qed

end
